theory Spec2Isabelle
  imports Main "HOL-Library.Sublist"
begin

section \<open>Text: whitespace and \<open>str.strip\<close>\<close>

text \<open>
  A text is a \<^typ>\<open>string\<close>; every \<^typ>\<open>char\<close> stands for one code point of the Python
  \<open>str\<close> (so the model covers texts whose code points are below 256, and \<open>length\<close> is
  Python's \<open>len\<close>).  \<open>is_space\<close> is the whitespace test shared by \<open>str.strip()\<close> and by
  the class \<open>\s\<close> of a \<open>str\<close> pattern, on those code points.
\<close>

definition is_space :: "char \<Rightarrow> bool" where
  "is_space c \<longleftrightarrow>
     c \<in> set [CHR 0x09, CHR 0x0A, CHR 0x0B, CHR 0x0C, CHR 0x0D,
              CHR 0x1C, CHR 0x1D, CHR 0x1E, CHR 0x1F, CHR 0x20, CHR 0x85, CHR 0xA0]"

definition strip :: "string \<Rightarrow> string" where
  "strip s = rev (dropWhile is_space (rev (dropWhile is_space s)))"

fun join :: "string \<Rightarrow> string list \<Rightarrow> string" where
  "join sep [] = []"
| "join sep [x] = x"
| "join sep (x # y # ys) = x @ sep @ join sep (y # ys)"


section \<open>The regular expressions of the gatherer\<close>

text \<open>
  The patterns of \<open>gather_docs.py\<close> are sequences of literal text, a starred character
  class (lazy \<open>.*?\<close>, greedy \<open>\s*\<close>) and group parentheses.  \<open>re_match\<close> is the backtracking
  matcher anchored at the start of the text: a lazy star tries the rest of the pattern
  before it takes one more character, a greedy star takes one more character first.
  It returns the captured groups in order.  \<open>re_search\<close> is \<open>re.search\<close>: the match at the
  leftmost position that has one.  The flag \<open>dotall\<close> is \<open>re.DOTALL\<close>.
\<close>

datatype cls = Dot | Space

datatype item = Chars string | Lazy cls | Greedy cls | GroupOpen | GroupClose

type_synonym regex = "item list"

fun cls_ok :: "bool \<Rightarrow> cls \<Rightarrow> char \<Rightarrow> bool" where
  "cls_ok dotall Dot c = (dotall \<or> c \<noteq> CHR 0x0A)"
| "cls_ok dotall Space c = is_space c"

fun re_match :: "bool \<Rightarrow> regex \<Rightarrow> string \<Rightarrow> string option \<Rightarrow> string list \<Rightarrow> string list option" where
  "re_match dotall [] s opn gs = Some gs"
| "re_match dotall (Chars p # r) s opn gs =
     (if prefix p s then re_match dotall r (drop (length p) s) opn gs else None)"
| "re_match dotall (GroupOpen # r) s opn gs = re_match dotall r s (Some s) gs"
| "re_match dotall (GroupClose # r) s opn gs =
     (case opn of
        None \<Rightarrow> None
      | Some s0 \<Rightarrow> re_match dotall r s None (gs @ [take (length s0 - length s) s0]))"
| "re_match dotall (Lazy c # r) s opn gs =
     (case re_match dotall r s opn gs of
        Some m \<Rightarrow> Some m
      | None \<Rightarrow>
          (case s of
             [] \<Rightarrow> None
           | x # xs \<Rightarrow> if cls_ok dotall c x then re_match dotall (Lazy c # r) xs opn gs else None))"
| "re_match dotall (Greedy c # r) s opn gs =
     (case s of
        [] \<Rightarrow> re_match dotall r s opn gs
      | x # xs \<Rightarrow>
          if cls_ok dotall c x
          then (case re_match dotall (Greedy c # r) xs opn gs of
                  Some m \<Rightarrow> Some m
                | None \<Rightarrow> re_match dotall r s opn gs)
          else re_match dotall r s opn gs)"

fun re_search :: "regex \<Rightarrow> string \<Rightarrow> bool \<Rightarrow> string list option" where
  "re_search pat [] dotall = re_match dotall pat [] None []"
| "re_search pat (x # xs) dotall =
     (case re_match dotall pat (x # xs) None [] of
        Some m \<Rightarrow> Some m
      | None \<Rightarrow> re_search pat xs dotall)"

datatype py_exception =
  OSError string | PermissionError string | UnicodeDecodeError string | ValueError string |
  IndexError string

fun exc_str :: "py_exception \<Rightarrow> string" where
  "exc_str (OSError m) = m"
| "exc_str (PermissionError m) = m"
| "exc_str (UnicodeDecodeError m) = m"
| "exc_str (ValueError m) = m"
| "exc_str (IndexError m) = m"

text \<open>\<open>match.group(n)\<close>: group \<open>n \<ge> 1\<close> of a match, \<open>IndexError\<close> when the pattern has no such group.\<close>

definition group :: "string list \<Rightarrow> nat \<Rightarrow> py_exception + string" where
  "group m n = (if 1 \<le> n \<and> n \<le> length m then Inr (m ! (n - 1)) else Inl (IndexError ''no such group''))"

text \<open>
  The four comment patterns of \<open>extract_doc_comment\<close>, in the order of the list
  \<open>doc_patterns\<close>, and the pattern of the creation line.
\<close>

definition python_style :: regex where
  "python_style =
     [Chars [CHR 0x22, CHR 0x22, CHR 0x22], GroupOpen, Lazy Dot, GroupClose,
      Chars [CHR 0x22, CHR 0x22, CHR 0x22]]"

definition c_style :: regex where
  "c_style = [Chars ''/**'', GroupOpen, Lazy Dot, GroupClose, Chars ''*/'']"

definition powershell :: regex where
  "powershell = [Chars ''<#'', GroupOpen, Lazy Dot, GroupClose, Chars ''#>'']"

definition alt_python_style :: regex where
  "alt_python_style =
     [Chars [CHR 0x27, CHR 0x27, CHR 0x27], Greedy Space, GroupOpen, Lazy Dot, GroupClose,
      Chars [CHR 0x27, CHR 0x27, CHR 0x27]]"

definition doc_patterns :: "regex list" where
  "doc_patterns = [python_style, c_style, powershell, alt_python_style]"

definition created_pattern :: regex where
  "created_pattern =
     [Chars ''Created with '', GroupOpen, Lazy Dot, GroupClose, Chars ''('',
      GroupOpen, Lazy Dot, GroupClose, Chars '')'']"


section \<open>Paths and the file system\<close>

text \<open>
  A path is the list of its components; \<open>path_str\<close> is \<open>str(path)\<close> with the POSIX
  separator.  A file node carries what \<open>read_text()\<close> gives for it: the decoded text,
  or the exception raised while reading or decoding.  \<open>NoStat e\<close> is an entry that its
  directory lists and whose \<open>stat()\<close> raises \<open>e\<close>, an error that \<open>is_file()\<close> does not
  swallow: an entry of a directory without search permission, with \<open>PermissionError\<close>.
\<close>

type_synonym path = "string list"

definition path_str :: "path \<Rightarrow> string" where
  "path_str p = (if p = [] then ''.'' else join ''/'' p)"

definition relative_to :: "path \<Rightarrow> path \<Rightarrow> py_exception + path" where
  "relative_to p other =
     (if prefix other p then Inr (drop (length other) p)
      else Inl (ValueError (path_str p @ '' is not in the subpath of '' @ path_str other)))"

datatype fsnode =
  File "py_exception + string" | Dir "(string \<times> fsnode) list" | NoStat py_exception

text \<open>
  \<open>is_file()\<close> is true of a regular file and false of a directory; where \<open>stat()\<close> raises
  an error it does not swallow, it raises that error.
\<close>

fun is_file :: "fsnode \<Rightarrow> py_exception + bool" where
  "is_file (File r) = Inr True"
| "is_file (Dir es) = Inr False"
| "is_file (NoStat e) = Inl e"

fun read_text :: "fsnode \<Rightarrow> py_exception + string" where
  "read_text (File r) = r"
| "read_text (Dir es) = Inl (OSError ''Is a directory'')"
| "read_text (NoStat e) = Inl e"


section \<open>\<open>FileDoc\<close> and \<open>DocGatherer\<close>\<close>

record FileDoc =
  path :: string
  description :: string
  created_date :: "string option"
  created_with :: "string option"

record DocGatherer =
  root_dir :: path
  project_context :: string


text \<open>The constructor (lines 29 to 52), with the text of the preamble.\<close>

definition preamble :: string where
  "preamble =
      ''\<newline>'' @
      ''Developer Tools Monorepo Context:\<newline>'' @
      ''--------------------------------\<newline>'' @
      ''This is a monorepo designed for rapid prototyping and exploration of various development tools\<newline>'' @
      ''and utilities. The project aims to provide a consistent development environment across\<newline>'' @
      ''Windows, OSX, and Linux platforms, with initial focus on Python development, cloud tools (gcloud),\<newline>'' @
      ''and version control (git).\<newline>'' @
      ''\<newline>'' @
      ''Key Features:\<newline>'' @
      ''- Cross-platform compatibility\<newline>'' @
      ''- Idempotent installations\<newline>'' @
      ''- Version management\<newline>'' @
      ''- Automated environment setup\<newline>'' @
      ''- Self-documenting codebase\<newline>'' @
      ''\<newline>'' @
      ''Initial implementation includes environment bootstrapping with cross-platform support\<newline>'' @
      ''and version-checked installations of core development tools.\<newline>'' @
      ''\<newline>'' @
      ''All generated scripts should follow the pattern that is already established,\<newline>'' @
      ''so that our automated documentation gatherer continues to be useful for\<newline>'' @
      ''sending context to LLMs for further development.\<newline>''"

definition new_gatherer :: "path \<Rightarrow> DocGatherer" where
  "new_gatherer root = \<lparr>root_dir = root, project_context = preamble\<rparr>"


subsection \<open>\<open>extract_doc_comment\<close>\<close>

text \<open>Lines 72 to 77: the creation line of the trimmed comment text.\<close>

definition created_info :: "string \<Rightarrow> py_exception + (string option \<times> string option)" where
  "created_info doc_text =
     (case re_search created_pattern doc_text False of
        None \<Rightarrow> Inr (None, None)
      | Some created_match \<Rightarrow>
          (case group created_match 1 of
             Inl e \<Rightarrow> Inl e
           | Inr g1 \<Rightarrow>
               (case group created_match 2 of
                  Inl e \<Rightarrow> Inl e
                | Inr g2 \<Rightarrow> Inr (Some (strip g1), Some (strip g2)))))"

text \<open>Lines 69 to 84: the body of the loop once a pattern has matched.\<close>

definition make_doc :: "DocGatherer \<Rightarrow> path \<Rightarrow> string list \<Rightarrow> py_exception + FileDoc" where
  "make_doc self file_path m =
     (case group m 1 of
        Inl e \<Rightarrow> Inl e
      | Inr g \<Rightarrow>
          (let doc_text = strip g in
           case created_info doc_text of
             Inl e \<Rightarrow> Inl e
           | Inr (cw, cd) \<Rightarrow>
               (case relative_to file_path (root_dir self) of
                  Inl e \<Rightarrow> Inl e
                | Inr rel \<Rightarrow>
                    Inr \<lparr>path = path_str rel, description = doc_text,
                         created_date = cd, created_with = cw\<rparr>)))"

text \<open>Lines 66 to 86: the loop over the patterns; the first pattern that matches returns.\<close>

fun scan_patterns :: "DocGatherer \<Rightarrow> path \<Rightarrow> string \<Rightarrow> regex list \<Rightarrow> py_exception + FileDoc option" where
  "scan_patterns self file_path content [] = Inr None"
| "scan_patterns self file_path content (pattern # rest) =
     (case re_search pattern content True of
        Some m \<Rightarrow>
          (case make_doc self file_path m of Inl e \<Rightarrow> Inl e | Inr d \<Rightarrow> Inr (Some d))
      | None \<Rightarrow> scan_patterns self file_path content rest)"

text \<open>
  The whole method with its \<open>try\<close>/\<open>except Exception\<close>: the result and the lines it
  prints.
\<close>

definition extract_doc_comment :: "DocGatherer \<Rightarrow> path \<times> fsnode \<Rightarrow> FileDoc option \<times> string list" where
  "extract_doc_comment self fp =
     (case (case read_text (snd fp) of
              Inl e \<Rightarrow> Inl e
            | Inr content \<Rightarrow> scan_patterns self (fst fp) content doc_patterns) of
        Inr r \<Rightarrow> (r, [])
      | Inl e \<Rightarrow> (None, [''Error processing '' @ path_str (fst fp) @ '': '' @ exc_str e]))"


subsection \<open>\<open>gather_docs\<close>\<close>

text \<open>
  \<open>path_name\<close> and \<open>path_suffix\<close> are pathlib's \<open>name\<close> and \<open>suffix\<close>: the suffix is the
  part of the last component from its last dot on, and is empty when that dot is the
  first or the last character of the name, or when there is none.
\<close>

definition path_name :: "path \<Rightarrow> string" where
  "path_name p = (if p = [] then [] else last p)"

definition rfind :: "string \<Rightarrow> char \<Rightarrow> int" where
  "rfind s c =
     (if c \<in> set s then int (length s) - 1 - int (length (takeWhile (\<lambda>x. x \<noteq> c) (rev s)))
      else - 1)"

definition path_suffix :: "path \<Rightarrow> string" where
  "path_suffix p =
     (let name = path_name p; i = rfind name (CHR ''.'')
      in if 0 < i \<and> i < int (length name) - 1 then drop (nat i) name else [])"

text \<open>
  \<open>rglob dir es\<close> is \<open>dir.rglob('*')\<close> for a directory \<open>dir\<close> whose entries are \<open>es\<close>:
  every entry below \<open>dir\<close>, files and directories alike; the entries of a directory
  come together, in the order the directory lists them, before those of its
  subdirectories.
\<close>

fun rglob :: "path \<Rightarrow> (string \<times> fsnode) list \<Rightarrow> (path \<times> fsnode) list" where
  "rglob dir es =
     map (\<lambda>e. (dir @ [fst e], snd e)) es @
     concat (map (\<lambda>e. case snd e of Dir sub \<Rightarrow> rglob (dir @ [fst e]) sub | File r \<Rightarrow> []
                        | NoStat x \<Rightarrow> []) es)"

definition suffix_list :: "string list" where
  "suffix_list = [''.py'', ''.sh'', ''.ps1'']"

text \<open>
  One turn of the loop of \<open>gather_docs\<close> (lines 94 to 97) on the list \<open>docs\<close> and the
  lines printed so far.  The test of line 94 calls \<open>is_file()\<close> first, outside any \<open>try\<close>:
  when it raises, the scan is over, with the exception and the lines printed until then
  (\<open>Inl\<close>); the list \<open>docs\<close> is lost.  The loop runs over what \<open>rglob\<close> yields.
\<close>

definition gather_step :: "DocGatherer \<Rightarrow> FileDoc list \<times> string list \<Rightarrow> path \<times> fsnode \<Rightarrow> py_exception \<times> string list + FileDoc list \<times> string list" where
  "gather_step self st file_path =
     (case is_file (snd file_path) of
        Inl e \<Rightarrow> Inl (e, snd st)
      | Inr b \<Rightarrow>
          if b \<and> path_suffix (fst file_path) \<in> set suffix_list
          then (case extract_doc_comment self file_path of
                  (Some doc, out) \<Rightarrow> Inr (fst st @ [doc], snd st @ out)
                | (None, out) \<Rightarrow> Inr (fst st, snd st @ out))
          else Inr st)"

fun gather_loop :: "DocGatherer \<Rightarrow> FileDoc list \<times> string list \<Rightarrow> (path \<times> fsnode) list \<Rightarrow> py_exception \<times> string list + FileDoc list \<times> string list" where
  "gather_loop self st [] = Inr st"
| "gather_loop self st (file_path # rest) =
     (case gather_step self st file_path of
        Inl e \<Rightarrow> Inl e
      | Inr st' \<Rightarrow> gather_loop self st' rest)"

definition gather_docs :: "DocGatherer \<Rightarrow> (string \<times> fsnode) list \<Rightarrow> py_exception \<times> string list + FileDoc list \<times> string list" where
  "gather_docs self tree = gather_loop self ([], []) (rglob (root_dir self) tree)"


subsection \<open>\<open>format_output\<close>\<close>

text \<open>
  Lines 104 to 109: what one record appends to the list \<open>output\<close>.  The test
  \<open>doc.created_with and doc.created_date\<close> holds when both are strings and neither is empty.
\<close>

definition append_doc :: "string list \<Rightarrow> FileDoc \<Rightarrow> string list" where
  "append_doc output doc =
     (let output = output @ [''\<newline>'' @ path doc];
          output = output @ [replicate (length (path doc)) (CHR ''-'')];
          output = output @ [description doc];
          output =
            (case (created_with doc, created_date doc) of
               (Some w, Some d) \<Rightarrow>
                 if w \<noteq> [] \<and> d \<noteq> []
                 then output @ [''\<newline>Created with '' @ w @ '' ('' @ d @ '')'']
                 else output
             | _ \<Rightarrow> output)
      in output @ [''\<newline>''])"

definition section_header :: string where
  "section_header = ''\<newline>File Documentation:\<newline>-------------------''"

definition format_output :: "DocGatherer \<Rightarrow> FileDoc list \<Rightarrow> string" where
  "format_output self docs =
     join ''\<newline>'' (foldl append_doc [project_context self, section_header] docs)"



text \<open>\<open>stat_ok\<close>: \<open>is_file()\<close> returns for the node.\<close>

definition stat_ok :: "fsnode \<Rightarrow> bool" where
  "stat_ok node = (case is_file node of Inl e \<Rightarrow> False | Inr b \<Rightarrow> True)"

text \<open>
  The text one record adds to the report: the entries \<open>append_doc\<close> appends, each after
  the separator that \<open>join\<close> puts before it.
\<close>

definition record_block :: "FileDoc \<Rightarrow> string" where
  "record_block doc = concat (map (\<lambda>entry. ''\<newline>'' @ entry) (append_doc [] doc))"


section \<open>The notions of the specification\<close>

text \<open>
  The four delimiter pairs in the priority order of the specification.  A text
  \<open>has_block\<close> for a pair when an opening delimiter is followed, after any text, by a
  closing one.  \<open>first_block\<close> names the text between the delimiters of the first
  occurrence: no opening delimiter starts earlier in the text, and no closing one starts
  earlier after the opening.
\<close>

definition delimiters :: "(string \<times> string) list" where
  "delimiters =
     [([CHR 0x22, CHR 0x22, CHR 0x22], [CHR 0x22, CHR 0x22, CHR 0x22]),
      (''/**'', ''*/''),
      (''<#'', ''#>''),
      ([CHR 0x27, CHR 0x27, CHR 0x27], [CHR 0x27, CHR 0x27, CHR 0x27])]"

definition has_block :: "string \<times> string \<Rightarrow> string \<Rightarrow> bool" where
  "has_block dl content \<longleftrightarrow> (\<exists>pre mid post. content = pre @ fst dl @ mid @ snd dl @ post)"

definition first_block :: "string \<times> string \<Rightarrow> string \<Rightarrow> string \<Rightarrow> bool" where
  "first_block dl content mid \<longleftrightarrow>
     (\<exists>pre post. content = pre @ fst dl @ mid @ snd dl @ post \<and>
        (\<forall>i<length pre. \<not> prefix (fst dl) (drop i content)) \<and>
        (\<forall>j<length mid. \<not> prefix (snd dl) (drop j (mid @ snd dl @ post))))"


text \<open>
  \<open>annotation_at s\<close>: the text \<open>s\<close> starts with an annotation of the shape
  \<open>Created with <agent>(<date>)\<close>, agent and date on one line.
\<close>

definition annotation_at :: "string \<Rightarrow> bool" where
  "annotation_at s \<longleftrightarrow>
     (\<exists>agent date rest. s = ''Created with '' @ agent @ ''('' @ date @ '')'' @ rest \<and>
        CHR 0x0A \<notin> set agent \<and> CHR 0x0A \<notin> set date)"



fun well_formed :: "(string \<times> fsnode) list \<Rightarrow> bool" where
  "well_formed es \<longleftrightarrow>
     distinct (map fst es) \<and>
     (\<forall>e\<in>set es. case snd e of Dir sub \<Rightarrow> well_formed sub | File r \<Rightarrow> True
                            | NoStat x \<Rightarrow> True)"

declare rglob.simps [simp del] well_formed.simps [simp del]


section \<open>Searching a pattern\<close>

lemma re_search_None_iff:
  "re_search pat s d = None \<longleftrightarrow> (\<forall>i\<le>length s. re_match d pat (drop i s) None [] = None)"
proof (induction s)
  case Nil
  show ?case by simp
next
  case (Cons x xs)
  show ?case
  proof
    assume a: "re_search pat (x # xs) d = None"
    then have h: "re_match d pat (x # xs) None [] = None" and t: "re_search pat xs d = None"
      by (auto split: option.splits)
    show "\<forall>i\<le>length (x # xs). re_match d pat (drop i (x # xs)) None [] = None"
    proof (intro allI impI)
      fix i assume "i \<le> length (x # xs)"
      then show "re_match d pat (drop i (x # xs)) None [] = None"
        using h t Cons.IH by (cases i) auto
    qed
  next
    assume a: "\<forall>i\<le>length (x # xs). re_match d pat (drop i (x # xs)) None [] = None"
    then have h: "re_match d pat (x # xs) None [] = None" by (metis drop0 le0)
    have "\<forall>i\<le>length xs. re_match d pat (drop i xs) None [] = None"
    proof (intro allI impI)
      fix i assume "i \<le> length xs"
      then have "Suc i \<le> length (x # xs)" by simp
      from a[rule_format, OF this] show "re_match d pat (drop i xs) None [] = None" by simp
    qed
    with Cons.IH have "re_search pat xs d = None" by simp
    with h show "re_search pat (x # xs) d = None" by simp
  qed
qed

lemma re_search_skip:
  "(\<forall>i<length pre. re_match d pat (drop i (pre @ suf)) None [] = None) \<Longrightarrow>
   re_match d pat suf None [] = Some m \<Longrightarrow> re_search pat (pre @ suf) d = Some m"
proof (induction pre)
  case Nil
  then show ?case by (cases suf) auto
next
  case (Cons x pre)
  from Cons.prems(1) have h: "re_match d pat (x # pre @ suf) None [] = None"
    by (metis append_Cons drop0 length_greater_0_conv list.distinct(1))
  have "\<forall>i<length pre. re_match d pat (drop i (pre @ suf)) None [] = None"
  proof (intro allI impI)
    fix i assume "i < length pre"
    then have "Suc i < length (x # pre)" by simp
    from Cons.prems(1)[rule_format, OF this] show "re_match d pat (drop i (pre @ suf)) None [] = None" by simp
  qed
  with Cons.IH Cons.prems(2) have "re_search pat (pre @ suf) d = Some m" by simp
  with h show ?case by simp
qed

lemma re_search_SomeD:
  "re_search pat s d = Some m \<Longrightarrow>
   \<exists>pre suf. s = pre @ suf \<and> re_match d pat suf None [] = Some m \<and>
     (\<forall>i<length pre. re_match d pat (drop i s) None [] = None)"
proof (induction s)
  case Nil
  then show ?case by simp
next
  case (Cons x xs)
  show ?case
  proof (cases "re_match d pat (x # xs) None []")
    case (Some m')
    with Cons.prems have "m' = m" by simp
    with Some have "x # xs = [] @ (x # xs) \<and> re_match d pat (x # xs) None [] = Some m \<and>
        (\<forall>i<length ([]::string). re_match d pat (drop i (x # xs)) None [] = None)" by simp
    then show ?thesis by blast
  next
    case None
    with Cons.prems have "re_search pat xs d = Some m" by simp
    from Cons.IH[OF this] obtain pre suf where ps: "xs = pre @ suf"
      "re_match d pat suf None [] = Some m" "\<forall>i<length pre. re_match d pat (drop i xs) None [] = None"
      by blast
    have "\<forall>i<length (x # pre). re_match d pat (drop i (x # xs)) None [] = None"
    proof (intro allI impI)
      fix i assume "i < length (x # pre)"
      then show "re_match d pat (drop i (x # xs)) None [] = None"
        using None ps(3) by (cases i) auto
    qed
    with ps(1,2) have "x # xs = (x # pre) @ suf \<and> re_match d pat suf None [] = Some m \<and>
       (\<forall>i<length (x # pre). re_match d pat (drop i (x # xs)) None [] = None)" by simp
    then show ?thesis by blast
  qed
qed

lemma lazy_close_Some_iff:
  "re_match True [Lazy Dot, GroupClose, Chars cl] s (Some (pre0 @ s)) gs = Some m \<longleftrightarrow>
   (\<exists>mid post. s = mid @ cl @ post \<and> (\<forall>j<length mid. \<not> prefix cl (drop j s)) \<and> m = gs @ [pre0 @ mid])"
proof (induction s arbitrary: pre0)
  case Nil
  show ?case by (auto simp: prefix_def)
next
  case (Cons x xs)
  show ?case
  proof (cases "prefix cl (x # xs)")
    case True
    then obtain post where post: "x # xs = cl @ post" by (auto simp: prefix_def)
    have l: "re_match True [Lazy Dot, GroupClose, Chars cl] (x # xs) (Some (pre0 @ x # xs)) gs = Some (gs @ [pre0])"
      using True by simp
    show ?thesis
    proof
      assume "re_match True [Lazy Dot, GroupClose, Chars cl] (x # xs) (Some (pre0 @ x # xs)) gs = Some m"
      with l have "m = gs @ [pre0]" by simp
      with post have "x # xs = [] @ cl @ post \<and> (\<forall>j<length ([]::string). \<not> prefix cl (drop j (x # xs))) \<and> m = gs @ [pre0 @ []]"
        by simp
      then show "\<exists>mid post. x # xs = mid @ cl @ post \<and> (\<forall>j<length mid. \<not> prefix cl (drop j (x # xs))) \<and> m = gs @ [pre0 @ mid]"
        by blast
    next
      assume "\<exists>mid post. x # xs = mid @ cl @ post \<and> (\<forall>j<length mid. \<not> prefix cl (drop j (x # xs))) \<and> m = gs @ [pre0 @ mid]"
      then obtain mid post' where mp: "x # xs = mid @ cl @ post'" "\<forall>j<length mid. \<not> prefix cl (drop j (x # xs))" "m = gs @ [pre0 @ mid]"
        by blast
      have "mid = []"
      proof (rule ccontr)
        assume "mid \<noteq> []"
        then have "0 < length mid" by simp
        from mp(2)[rule_format, OF this] True show False by simp
      qed
      with mp(3) l show "re_match True [Lazy Dot, GroupClose, Chars cl] (x # xs) (Some (pre0 @ x # xs)) gs = Some m"
        by simp
    qed
  next
    case False
    have l: "re_match True [Lazy Dot, GroupClose, Chars cl] (x # xs) (Some (pre0 @ x # xs)) gs
          = re_match True [Lazy Dot, GroupClose, Chars cl] xs (Some ((pre0 @ [x]) @ xs)) gs"
      using False by simp
    have "(\<exists>mid post. x # xs = mid @ cl @ post \<and> (\<forall>j<length mid. \<not> prefix cl (drop j (x # xs))) \<and> m = gs @ [pre0 @ mid])
       \<longleftrightarrow> (\<exists>mid post. xs = mid @ cl @ post \<and> (\<forall>j<length mid. \<not> prefix cl (drop j xs)) \<and> m = gs @ [(pre0 @ [x]) @ mid])"
      (is "?L \<longleftrightarrow> ?R")
    proof
      assume ?L
      then obtain mid post where mp: "x # xs = mid @ cl @ post" "\<forall>j<length mid. \<not> prefix cl (drop j (x # xs))" "m = gs @ [pre0 @ mid]"
        by blast
      from mp(1) False have "mid \<noteq> []" by (auto simp: prefix_def)
      then obtain mid' where mid: "mid = x # mid'" using mp(1) by (cases mid) auto
      have "\<forall>j<length mid'. \<not> prefix cl (drop j xs)"
      proof (intro allI impI)
        fix j assume "j < length mid'"
        then have "Suc j < length mid" using mid by simp
        from mp(2)[rule_format, OF this] show "\<not> prefix cl (drop j xs)" by simp
      qed
      with mp mid have "xs = mid' @ cl @ post \<and> (\<forall>j<length mid'. \<not> prefix cl (drop j xs)) \<and> m = gs @ [(pre0 @ [x]) @ mid']"
        by simp
      then show ?R by blast
    next
      assume ?R
      then obtain mid post where mp: "xs = mid @ cl @ post" "\<forall>j<length mid. \<not> prefix cl (drop j xs)" "m = gs @ [(pre0 @ [x]) @ mid]"
        by blast
      have "\<forall>j<length (x # mid). \<not> prefix cl (drop j (x # xs))"
      proof (intro allI impI)
        fix j assume "j < length (x # mid)"
        then show "\<not> prefix cl (drop j (x # xs))" using False mp(2) by (cases j) auto
      qed
      with mp have "x # xs = (x # mid) @ cl @ post \<and> (\<forall>j<length (x # mid). \<not> prefix cl (drop j (x # xs))) \<and> m = gs @ [pre0 @ (x # mid)]"
        by simp
      then show ?L by blast
    qed
    with l Cons.IH[of "pre0 @ [x]"] show ?thesis by simp
  qed
qed


section \<open>The block patterns\<close>

lemma first_occurrence_exists:
  assumes "s = mid @ w @ post"
  shows "\<exists>mid' post'. s = mid' @ w @ post' \<and> (\<forall>j<length mid'. \<not> prefix w (drop j s))"
proof -
  define P where "P j \<longleftrightarrow> j \<le> length s \<and> prefix w (drop j s)" for j
  have "P (length mid)" using assms by (simp add: P_def)
  define j0 where "j0 = (LEAST j. P j)"
  have p0: "P j0" unfolding j0_def using \<open>P (length mid)\<close> by (rule LeastI)
  have least: "\<And>j. j < j0 \<Longrightarrow> \<not> P j" unfolding j0_def by (rule not_less_Least)
  from p0 obtain post' where "drop j0 s = w @ post'" by (auto simp: P_def prefix_def)
  then have "s = take j0 s @ w @ post'" by (metis append_take_drop_id)
  moreover have "\<forall>j<length (take j0 s). \<not> prefix w (drop j s)"
  proof (intro allI impI)
    fix j assume "j < length (take j0 s)"
    then have "j < j0" "j \<le> length s" by simp_all
    with least[of j] show "\<not> prefix w (drop j s)" by (simp add: P_def)
  qed
  ultimately show ?thesis by blast
qed

lemma lazy_close_None_iff:
  "re_match True [Lazy Dot, GroupClose, Chars cl] s (Some (pre0 @ s)) gs = None \<longleftrightarrow>
   \<not> (\<exists>mid post. s = mid @ cl @ post)"
proof -
  have "(\<exists>m. re_match True [Lazy Dot, GroupClose, Chars cl] s (Some (pre0 @ s)) gs = Some m) \<longleftrightarrow>
        (\<exists>mid post. s = mid @ cl @ post)"
    unfolding lazy_close_Some_iff using first_occurrence_exists[of s _ cl] by blast
  then show ?thesis by (metis not_Some_eq)
qed

lemma block_match_Some_iff:
  "re_match True [Chars op, GroupOpen, Lazy Dot, GroupClose, Chars cl] s None gs = Some m \<longleftrightarrow>
   (\<exists>mid post. s = op @ mid @ cl @ post \<and>
      (\<forall>j<length mid. \<not> prefix cl (drop j (mid @ cl @ post))) \<and> m = gs @ [mid])"
proof (cases "prefix op s")
  case False
  then show ?thesis by (auto simp: prefix_def)
next
  case True
  then obtain t where t: "s = op @ t" by (auto simp: prefix_def)
  have "re_match True [Chars op, GroupOpen, Lazy Dot, GroupClose, Chars cl] s None gs
      = re_match True [Lazy Dot, GroupClose, Chars cl] t (Some ([] @ t)) gs"
    using t by simp
  also have "\<dots> = Some m \<longleftrightarrow>
     (\<exists>mid post. t = mid @ cl @ post \<and> (\<forall>j<length mid. \<not> prefix cl (drop j t)) \<and> m = gs @ [[] @ mid])"
    by (rule lazy_close_Some_iff)
  finally show ?thesis using t by auto
qed

lemma block_match_None_iff:
  "re_match True [Chars op, GroupOpen, Lazy Dot, GroupClose, Chars cl] s None gs = None \<longleftrightarrow>
   \<not> (\<exists>mid post. s = op @ mid @ cl @ post)"
proof (cases "prefix op s")
  case False
  then show ?thesis by (auto simp: prefix_def)
next
  case True
  then obtain t where t: "s = op @ t" by (auto simp: prefix_def)
  have "re_match True [Chars op, GroupOpen, Lazy Dot, GroupClose, Chars cl] s None gs
      = re_match True [Lazy Dot, GroupClose, Chars cl] t (Some ([] @ t)) gs"
    using t by simp
  also have "\<dots> = None \<longleftrightarrow> \<not> (\<exists>mid post. t = mid @ cl @ post)"
    by (rule lazy_close_None_iff)
  finally show ?thesis using t by auto
qed

text \<open>An opening delimiter that occurs before a complete block opens a block itself.\<close>

lemma earlier_opening_has_block:
  assumes s: "s = pre @ op @ mid @ cl @ post" and i: "i < length pre" and p: "prefix op (drop i s)"
  shows "\<exists>mid' post'. drop i s = op @ mid' @ cl @ post'"
proof -
  let ?k = "i + length op"
  have k: "?k \<le> length (pre @ op @ mid)" using i by simp
  have "drop ?k s = drop ?k (pre @ op @ mid) @ cl @ post"
    using k by (simp add: s)
  moreover have "drop i s = op @ drop ?k s"
  proof -
    from p obtain r where r: "drop i s = op @ r" by (auto simp: prefix_def)
    then have "drop (length op) (drop i s) = r" by simp
    then have "drop ?k s = r" by (simp add: add.commute)
    with r show ?thesis by simp
  qed
  ultimately have "drop i s = op @ drop ?k (pre @ op @ mid) @ cl @ post" by simp
  then show ?thesis by blast
qed

lemma block_match_matches:
  assumes "\<exists>mid post. s = op @ mid @ cl @ post"
  shows "re_match True [Chars op, GroupOpen, Lazy Dot, GroupClose, Chars cl] s None gs \<noteq> None"
  using assms block_match_None_iff[of op cl s gs] by blast

lemma block_search_first:
  assumes "re_search [Chars op, GroupOpen, Lazy Dot, GroupClose, Chars cl] s True = Some m"
  shows "\<exists>mid. m = [mid] \<and> first_block (op, cl) s mid"
proof -
  let ?B = "[Chars op, GroupOpen, Lazy Dot, GroupClose, Chars cl]"
  from re_search_SomeD[OF assms] obtain pre suf where ps: "s = pre @ suf"
    "re_match True ?B suf None [] = Some m"
    "\<forall>i<length pre. re_match True ?B (drop i s) None [] = None" by blast
  from block_match_Some_iff[THEN iffD1, OF ps(2)] obtain mid post where mp: "suf = op @ mid @ cl @ post"
    "\<forall>j<length mid. \<not> prefix cl (drop j (mid @ cl @ post))" "m = [] @ [mid]"
    by blast
  have s: "s = pre @ op @ mid @ cl @ post" using ps(1) mp(1) by simp
  have A: "\<forall>i<length pre. \<not> prefix op (drop i s)"
  proof (intro allI impI notI)
    fix i assume i: "i < length pre" and p: "prefix op (drop i s)"
    from earlier_opening_has_block[OF s i p] have "re_match True ?B (drop i s) None [] \<noteq> None"
      by (rule block_match_matches)
    then show False using ps(3)[rule_format, OF i] by (rule notE)
  qed
  have "first_block (op, cl) s mid" unfolding first_block_def fst_conv snd_conv
  proof (intro exI conjI)
    show "s = pre @ op @ mid @ cl @ post" by (rule s)
    show "\<forall>i<length pre. \<not> prefix op (drop i s)" by (rule A)
    show "\<forall>j<length mid. \<not> prefix cl (drop j (mid @ cl @ post))" by (rule mp(2))
  qed
  with mp(3) show ?thesis by simp
qed

lemma block_search_has_block:
  "re_search [Chars op, GroupOpen, Lazy Dot, GroupClose, Chars cl] s True \<noteq> None \<longleftrightarrow> has_block (op, cl) s"
proof
  assume "re_search [Chars op, GroupOpen, Lazy Dot, GroupClose, Chars cl] s True \<noteq> None"
  then obtain m where "re_search [Chars op, GroupOpen, Lazy Dot, GroupClose, Chars cl] s True = Some m" by blast
  from block_search_first[OF this] obtain mid where "first_block (op, cl) s mid" by auto
  then obtain pre post where "s = pre @ op @ mid @ cl @ post"
    unfolding first_block_def fst_conv snd_conv by auto
  then show "has_block (op, cl) s"
    unfolding has_block_def fst_conv snd_conv by (intro exI)
next
  let ?B = "[Chars op, GroupOpen, Lazy Dot, GroupClose, Chars cl]"
  assume "has_block (op, cl) s"
  then obtain pre mid post where s: "s = pre @ op @ mid @ cl @ post"
    unfolding has_block_def fst_conv snd_conv by auto
  then have "drop (length pre) s = op @ mid @ cl @ post" by simp
  then have "\<exists>mid post. drop (length pre) s = op @ mid @ cl @ post" by blast
  then have ne: "re_match True ?B (drop (length pre) s) None [] \<noteq> None"
    by (rule block_match_matches)
  have le: "length pre \<le> length s" using s by simp
  show "re_search ?B s True \<noteq> None"
  proof
    assume "re_search ?B s True = None"
    then have "\<forall>i\<le>length s. re_match True ?B (drop i s) None [] = None"
      by (simp only: re_search_None_iff)
    from this[rule_format, OF le] ne show False by (rule notE[rotated])
  qed
qed


subsection \<open>Leading whitespace of the fourth pattern\<close>

lemma space_head_decomp:
  assumes cl: "cl \<noteq> []" "\<not> is_space (hd cl)" and x: "is_space x"
  shows "(\<exists>mid post. x # xs = mid @ cl @ post) \<longleftrightarrow> (\<exists>mid post. xs = mid @ cl @ post)"
proof
  assume "\<exists>mid post. x # xs = mid @ cl @ post"
  then obtain mid post where mp: "x # xs = mid @ cl @ post" by blast
  have "mid \<noteq> []"
  proof
    assume "mid = []"
    with mp cl(1) have "hd cl = x" by (cases cl) auto
    with cl(2) x show False by simp
  qed
  then obtain mid' where "mid = x # mid'" using mp by (cases mid) auto
  with mp have "xs = mid' @ cl @ post" by simp
  then show "\<exists>mid post. xs = mid @ cl @ post" by blast
next
  assume "\<exists>mid post. xs = mid @ cl @ post"
  then obtain mid post where "xs = mid @ cl @ post" by blast
  then have "x # xs = (x # mid) @ cl @ post" by simp
  then show "\<exists>mid post. x # xs = mid @ cl @ post" by blast
qed

lemma dropWhile_space_decomp:
  assumes cl: "cl \<noteq> []" "\<not> is_space (hd cl)"
  shows "(\<exists>mid post. dropWhile is_space s = mid @ cl @ post) \<longleftrightarrow> (\<exists>mid post. s = mid @ cl @ post)"
proof (induction s)
  case Nil
  show ?case by simp
next
  case (Cons x xs)
  show ?case
  proof (cases "is_space x")
    case True
    then have "dropWhile is_space (x # xs) = dropWhile is_space xs" by simp
    with Cons.IH space_head_decomp[OF cl True, of xs] show ?thesis by simp
  next
    case False
    then show ?thesis by simp
  qed
qed

lemma group_lazy_None_iff:
  "re_match True [GroupOpen, Lazy Dot, GroupClose, Chars cl] s None gs = None \<longleftrightarrow>
   \<not> (\<exists>mid post. s = mid @ cl @ post)"
proof -
  have "re_match True [GroupOpen, Lazy Dot, GroupClose, Chars cl] s None gs
      = re_match True [Lazy Dot, GroupClose, Chars cl] s (Some ([] @ s)) gs" by simp
  then show ?thesis by (simp only: lazy_close_None_iff)
qed

lemma group_lazy_Some_iff:
  "re_match True [GroupOpen, Lazy Dot, GroupClose, Chars cl] s None gs = Some m \<longleftrightarrow>
   (\<exists>mid post. s = mid @ cl @ post \<and> (\<forall>j<length mid. \<not> prefix cl (drop j s)) \<and> m = gs @ [mid])"
proof -
  have "re_match True [GroupOpen, Lazy Dot, GroupClose, Chars cl] s None gs
      = re_match True [Lazy Dot, GroupClose, Chars cl] s (Some ([] @ s)) gs" by simp
  then show ?thesis using lazy_close_Some_iff[of cl s "[]" gs m] by simp
qed

lemma greedy_space_skip:
  assumes cl: "cl \<noteq> []" "\<not> is_space (hd cl)"
  shows "re_match True [Greedy Space, GroupOpen, Lazy Dot, GroupClose, Chars cl] s None gs
       = re_match True [GroupOpen, Lazy Dot, GroupClose, Chars cl] (dropWhile is_space s) None gs"
proof (induction s)
  case Nil
  show ?case by simp
next
  case (Cons x xs)
  let ?G = "[Greedy Space, GroupOpen, Lazy Dot, GroupClose, Chars cl]"
  let ?R = "[GroupOpen, Lazy Dot, GroupClose, Chars cl]"
  show ?case
  proof (cases "is_space x")
    case False
    have "re_match True ?G (x # xs) None gs = re_match True ?R (x # xs) None gs"
      using False by simp
    with False show ?thesis by simp
  next
    case True
    have unfold: "re_match True ?G (x # xs) None gs =
        (case re_match True ?G xs None gs of Some m \<Rightarrow> Some m | None \<Rightarrow> re_match True ?R (x # xs) None gs)"
      using True by simp
    have dw: "dropWhile is_space (x # xs) = dropWhile is_space xs" using True by simp
    show ?thesis
    proof (cases "re_match True ?R (dropWhile is_space xs) None gs")
      case (Some m)
      with unfold Cons.IH dw show ?thesis by (simp only: option.case)
    next
      case None
      then have "\<not> (\<exists>mid post. dropWhile is_space xs = mid @ cl @ post)"
        by (rule group_lazy_None_iff[THEN iffD1])
      then have "\<not> (\<exists>mid post. xs = mid @ cl @ post)"
        using dropWhile_space_decomp[OF cl, of xs] by simp
      then have "\<not> (\<exists>mid post. x # xs = mid @ cl @ post)"
        using space_head_decomp[OF cl True, of xs] by simp
      then have "re_match True ?R (x # xs) None gs = None"
        by (rule group_lazy_None_iff[THEN iffD2])
      with unfold Cons.IH dw None show ?thesis by (simp only: option.case)
    qed
  qed
qed

lemma alt_match_None_iff:
  assumes cl: "cl \<noteq> []" "\<not> is_space (hd cl)"
  shows "re_match True [Chars op, Greedy Space, GroupOpen, Lazy Dot, GroupClose, Chars cl] s None gs = None \<longleftrightarrow>
   \<not> (\<exists>mid post. s = op @ mid @ cl @ post)"
proof (cases "prefix op s")
  case False
  then show ?thesis by (auto simp: prefix_def)
next
  case True
  then obtain t where t: "s = op @ t" by (auto simp: prefix_def)
  have "re_match True [Chars op, Greedy Space, GroupOpen, Lazy Dot, GroupClose, Chars cl] s None gs
      = re_match True [Greedy Space, GroupOpen, Lazy Dot, GroupClose, Chars cl] t None gs"
    using t by simp
  also have "\<dots> = re_match True [GroupOpen, Lazy Dot, GroupClose, Chars cl] (dropWhile is_space t) None gs"
    by (rule greedy_space_skip[OF cl])
  finally have "re_match True [Chars op, Greedy Space, GroupOpen, Lazy Dot, GroupClose, Chars cl] s None gs = None
     \<longleftrightarrow> \<not> (\<exists>mid post. t = mid @ cl @ post)"
    using group_lazy_None_iff[of cl "dropWhile is_space t" gs] dropWhile_space_decomp[OF cl, of t]
    by (simp del: re_match.simps)
  then show ?thesis using t by simp
qed

lemma strip_leading_space:
  assumes "\<forall>c\<in>set ws. is_space c"
  shows "strip (ws @ g) = strip g"
proof -
  have "dropWhile is_space (ws @ g) = dropWhile is_space g"
    using assms by (simp add: dropWhile_append2)
  then show ?thesis by (simp add: strip_def)
qed

lemma alt_match_SomeD:
  assumes cl: "cl \<noteq> []" "\<not> is_space (hd cl)"
    and m: "re_match True [Chars op, Greedy Space, GroupOpen, Lazy Dot, GroupClose, Chars cl] s None gs = Some m"
  shows "\<exists>ws g post. s = op @ ws @ g @ cl @ post \<and> (\<forall>c\<in>set ws. is_space c) \<and>
           (\<forall>j<length g. \<not> prefix cl (drop j (g @ cl @ post))) \<and> m = gs @ [g]"
proof -
  have p: "prefix op s"
  proof (rule ccontr)
    assume "\<not> prefix op s"
    then have "re_match True [Chars op, Greedy Space, GroupOpen, Lazy Dot, GroupClose, Chars cl] s None gs = None"
      by simp
    with m show False by simp
  qed
  then obtain t where t: "s = op @ t" by (auto simp: prefix_def)
  have "re_match True [Chars op, Greedy Space, GroupOpen, Lazy Dot, GroupClose, Chars cl] s None gs
      = re_match True [Greedy Space, GroupOpen, Lazy Dot, GroupClose, Chars cl] t None gs"
    using t by simp
  also have "\<dots> = re_match True [GroupOpen, Lazy Dot, GroupClose, Chars cl] (dropWhile is_space t) None gs"
    by (rule greedy_space_skip[OF cl])
  finally have "re_match True [GroupOpen, Lazy Dot, GroupClose, Chars cl] (dropWhile is_space t) None gs = Some m"
    using m by simp
  from group_lazy_Some_iff[THEN iffD1, OF this] obtain g post where gp:
    "dropWhile is_space t = g @ cl @ post"
    "\<forall>j<length g. \<not> prefix cl (drop j (dropWhile is_space t))" "m = gs @ [g]"
    by auto
  have "t = takeWhile is_space t @ dropWhile is_space t" by simp
  with gp(1) t have s: "s = op @ takeWhile is_space t @ g @ cl @ post" by simp
  have ws: "\<forall>c\<in>set (takeWhile is_space t). is_space c" by (auto dest: set_takeWhileD)
  from gp(1,2) have fc: "\<forall>j<length g. \<not> prefix cl (drop j (g @ cl @ post))" by simp
  show ?thesis
  proof (intro exI conjI)
    show "s = op @ takeWhile is_space t @ g @ cl @ post" by (rule s)
    show "\<forall>c\<in>set (takeWhile is_space t). is_space c" by (rule ws)
    show "\<forall>j<length g. \<not> prefix cl (drop j (g @ cl @ post))" by (rule fc)
    show "m = gs @ [g]" by (rule gp(3))
  qed
qed

lemma closing_not_in_space:
  assumes cl: "cl \<noteq> []" "\<not> is_space (hd cl)"
    and ws: "\<forall>c\<in>set ws. is_space c"
    and fc: "\<forall>j<length g. \<not> prefix cl (drop j (g @ rest))"
  shows "\<forall>j<length (ws @ g). \<not> prefix cl (drop j ((ws @ g) @ rest))"
proof (intro allI impI)
  fix j assume j: "j < length (ws @ g)"
  show "\<not> prefix cl (drop j ((ws @ g) @ rest))"
  proof (cases "j < length ws")
    case True
    then obtain y ys where d: "drop j ws = y # ys" by (cases "drop j ws") auto
    then have "y \<in> set ws" by (metis in_set_dropD list.set_intros(1))
    with ws have y: "is_space y" by blast
    have e: "drop j ((ws @ g) @ rest) = y # ys @ g @ rest" using True d by simp
    show ?thesis
    proof
      assume "prefix cl (drop j ((ws @ g) @ rest))"
      with e cl(1) have "hd cl = y" by (cases cl) auto
      with cl(2) y show False by simp
    qed
  next
    case False
    then have e: "drop j ((ws @ g) @ rest) = drop (j - length ws) (g @ rest)" by simp
    have "j - length ws < length g" using False j by simp
    with fc e show ?thesis by simp
  qed
qed

lemma alt_match_matches:
  assumes cl: "cl \<noteq> []" "\<not> is_space (hd cl)" and "\<exists>mid post. s = op @ mid @ cl @ post"
  shows "re_match True [Chars op, Greedy Space, GroupOpen, Lazy Dot, GroupClose, Chars cl] s None gs \<noteq> None"
  using assms(3) alt_match_None_iff[OF cl, of op s gs] by (simp del: re_match.simps)

lemma alt_search_first:
  assumes cl: "cl \<noteq> []" "\<not> is_space (hd cl)"
    and m: "re_search [Chars op, Greedy Space, GroupOpen, Lazy Dot, GroupClose, Chars cl] s True = Some m"
  shows "\<exists>g mid. m = [g] \<and> first_block (op, cl) s mid \<and> strip mid = strip g"
proof -
  let ?A = "[Chars op, Greedy Space, GroupOpen, Lazy Dot, GroupClose, Chars cl]"
  from re_search_SomeD[OF m] obtain pre suf where ps: "s = pre @ suf"
    "re_match True ?A suf None [] = Some m"
    "\<forall>i<length pre. re_match True ?A (drop i s) None [] = None" by blast
  from alt_match_SomeD[OF cl ps(2)] obtain ws g post where w: "suf = op @ ws @ g @ cl @ post"
    "\<forall>c\<in>set ws. is_space c" "\<forall>j<length g. \<not> prefix cl (drop j (g @ cl @ post))" "m = [] @ [g]"
    by blast
  have s: "s = pre @ op @ (ws @ g) @ cl @ post" using ps(1) w(1) by simp
  have A: "\<forall>i<length pre. \<not> prefix op (drop i s)"
  proof (intro allI impI notI)
    fix i assume i: "i < length pre" and p: "prefix op (drop i s)"
    from earlier_opening_has_block[OF s i p] have "re_match True ?A (drop i s) None [] \<noteq> None"
      by (rule alt_match_matches[OF cl])
    then show False using ps(3)[rule_format, OF i] by (rule notE)
  qed
  have B: "\<forall>j<length (ws @ g). \<not> prefix cl (drop j ((ws @ g) @ cl @ post))"
    by (rule closing_not_in_space[OF cl w(2,3)])
  have "first_block (op, cl) s (ws @ g)" unfolding first_block_def fst_conv snd_conv
  proof (intro exI conjI)
    show "s = pre @ op @ (ws @ g) @ cl @ post" by (rule s)
    show "\<forall>i<length pre. \<not> prefix op (drop i s)" by (rule A)
    show "\<forall>j<length (ws @ g). \<not> prefix cl (drop j ((ws @ g) @ cl @ post))" by (rule B)
  qed
  moreover have "strip (ws @ g) = strip g" by (rule strip_leading_space[OF w(2)])
  moreover have "m = [g]" using w(4) by simp
  ultimately show ?thesis by blast
qed

lemma alt_search_has_block:
  assumes cl: "cl \<noteq> []" "\<not> is_space (hd cl)"
  shows "re_search [Chars op, Greedy Space, GroupOpen, Lazy Dot, GroupClose, Chars cl] s True \<noteq> None
     \<longleftrightarrow> has_block (op, cl) s"
proof
  let ?A = "[Chars op, Greedy Space, GroupOpen, Lazy Dot, GroupClose, Chars cl]"
  assume "re_search ?A s True \<noteq> None"
  then obtain m where "re_search ?A s True = Some m" by blast
  from alt_search_first[OF cl this] obtain mid where "first_block (op, cl) s mid" by auto
  then obtain pre post where "s = pre @ op @ mid @ cl @ post"
    unfolding first_block_def fst_conv snd_conv by auto
  then show "has_block (op, cl) s"
    unfolding has_block_def fst_conv snd_conv by (intro exI)
next
  let ?A = "[Chars op, Greedy Space, GroupOpen, Lazy Dot, GroupClose, Chars cl]"
  assume "has_block (op, cl) s"
  then obtain pre mid post where s: "s = pre @ op @ mid @ cl @ post"
    unfolding has_block_def fst_conv snd_conv by auto
  then have "drop (length pre) s = op @ mid @ cl @ post" by simp
  then have "\<exists>mid post. drop (length pre) s = op @ mid @ cl @ post" by blast
  then have ne: "re_match True ?A (drop (length pre) s) None [] \<noteq> None"
    by (rule alt_match_matches[OF cl])
  have le: "length pre \<le> length s" using s by simp
  show "re_search ?A s True \<noteq> None"
  proof
    assume "re_search ?A s True = None"
    then have "\<forall>i\<le>length s. re_match True ?A (drop i s) None [] = None"
      by (simp only: re_search_None_iff)
    from this[rule_format, OF le] ne show False by (rule notE[rotated])
  qed
qed


section \<open>Groups of a match\<close>

lemma re_match_groups:
  "re_match d pat s opn gs = Some m \<Longrightarrow>
   length m = length gs + length (filter (\<lambda>i. i = GroupClose) pat)"
proof (induction d pat s opn gs rule: re_match.induct)
  case (1 dotall s opn gs)
  then show ?case by simp
next
  case (2 dotall p r s opn gs)
  then show ?case by (simp split: if_splits)
next
  case (3 dotall r s opn gs)
  then show ?case by simp
next
  case (4 dotall r s opn gs)
  then show ?case by (simp split: option.splits)
next
  case (5 dotall c r s opn gs)
  show ?case
  proof (cases "re_match dotall r s opn gs")
    case (Some m')
    with "5.prems" have "m' = m" by simp
    with Some "5.IH"(1) show ?thesis by simp
  next
    case None
    with "5.prems" obtain x xs where s: "s = x # xs" and ok: "cls_ok dotall c x"
      and r: "re_match dotall (Lazy c # r) xs opn gs = Some m"
      by (cases s) (simp_all split: if_splits)
    from "5.IH"(2)[OF None s ok r] show ?thesis by simp
  qed
next
  case (6 dotall c r s opn gs)
  show ?case
  proof (cases s)
    case Nil
    with "6.prems" have "re_match dotall r s opn gs = Some m" by simp
    from "6.IH"(1)[OF Nil this] show ?thesis by simp
  next
    case (Cons x xs)
    show ?thesis
    proof (cases "cls_ok dotall c x")
      case False
      with Cons "6.prems" have "re_match dotall r s opn gs = Some m" by simp
      from "6.IH"(4)[OF Cons False this] show ?thesis by simp
    next
      case True
      show ?thesis
      proof (cases "re_match dotall (Greedy c # r) xs opn gs")
        case (Some m')
        with Cons True "6.prems" have "m' = m" by simp
        with Some "6.IH"(2)[OF Cons True] show ?thesis by simp
      next
        case None
        with Cons True "6.prems" have "re_match dotall r s opn gs = Some m" by simp
        from "6.IH"(3)[OF Cons True None this] show ?thesis by simp
      qed
    qed
  qed
qed

lemma re_search_groups:
  assumes "re_search pat s d = Some m"
  shows "length m = length (filter (\<lambda>i. i = GroupClose) pat)"
proof -
  from re_search_SomeD[OF assms] obtain suf where "re_match d pat suf None [] = Some m" by blast
  from re_match_groups[OF this] show ?thesis by simp
qed

lemma created_info_Inr:
  "\<exists>cw cd. created_info t = Inr (cw, cd) \<and> (cw = None \<longleftrightarrow> cd = None) \<and>
     (cw = None \<longleftrightarrow> re_search created_pattern t False = None)"
proof (cases "re_search created_pattern t False")
  case None
  then show ?thesis by (simp add: created_info_def)
next
  case (Some m)
  from re_search_groups[OF this] have "length m = 2" by (simp add: created_pattern_def)
  with Some show ?thesis by (simp add: created_info_def group_def)
qed


section \<open>The extractor\<close>

lemma doc_pattern_first:
  assumes k: "k < 4" and m: "re_search (doc_patterns ! k) content True = Some m"
  shows "\<exists>g mid. m = [g] \<and> first_block (delimiters ! k) content mid \<and> strip mid = strip g"
proof -
  from k consider "k = 0" | "k = 1" | "k = 2" | "k = 3" by linarith
  then show ?thesis
  proof cases
    case 1
    with m have "re_search [Chars [CHR 0x22, CHR 0x22, CHR 0x22], GroupOpen, Lazy Dot, GroupClose,
        Chars [CHR 0x22, CHR 0x22, CHR 0x22]] content True = Some m"
      by (simp add: doc_patterns_def python_style_def)
    from block_search_first[OF this] show ?thesis using 1 by (auto simp: delimiters_def)
  next
    case 2
    with m have "re_search [Chars ''/**'', GroupOpen, Lazy Dot, GroupClose, Chars ''*/''] content True = Some m"
      by (simp add: doc_patterns_def c_style_def)
    from block_search_first[OF this] show ?thesis using 2 by (auto simp: delimiters_def)
  next
    case 3
    with m have "re_search [Chars ''<#'', GroupOpen, Lazy Dot, GroupClose, Chars ''#>''] content True = Some m"
      by (simp add: doc_patterns_def powershell_def)
    from block_search_first[OF this] show ?thesis using 3 by (auto simp: delimiters_def)
  next
    case 4
    have cl: "[CHR 0x27, CHR 0x27, CHR 0x27] \<noteq> []" "\<not> is_space (hd [CHR 0x27, CHR 0x27, CHR 0x27])"
      by (simp_all add: is_space_def)
    from 4 m have "re_search [Chars [CHR 0x27, CHR 0x27, CHR 0x27], Greedy Space, GroupOpen, Lazy Dot,
        GroupClose, Chars [CHR 0x27, CHR 0x27, CHR 0x27]] content True = Some m"
      by (simp add: doc_patterns_def alt_python_style_def)
    from alt_search_first[OF cl this] show ?thesis using 4 by (auto simp: delimiters_def)
  qed
qed

lemma doc_pattern_has_block:
  assumes k: "k < 4"
  shows "re_search (doc_patterns ! k) content True \<noteq> None \<longleftrightarrow> has_block (delimiters ! k) content"
proof -
  from k consider "k = 0" | "k = 1" | "k = 2" | "k = 3" by linarith
  then show ?thesis
  proof cases
    case 1
    then show ?thesis
      using block_search_has_block[of "[CHR 0x22, CHR 0x22, CHR 0x22]" "[CHR 0x22, CHR 0x22, CHR 0x22]" content]
      by (simp add: doc_patterns_def python_style_def delimiters_def)
  next
    case 2
    then show ?thesis
      using block_search_has_block[of "''/**''" "''*/''" content]
      by (simp add: doc_patterns_def c_style_def delimiters_def)
  next
    case 3
    then show ?thesis
      using block_search_has_block[of "''<#''" "''#>''" content]
      by (simp add: doc_patterns_def powershell_def delimiters_def)
  next
    case 4
    have cl: "[CHR 0x27, CHR 0x27, CHR 0x27] \<noteq> []" "\<not> is_space (hd [CHR 0x27, CHR 0x27, CHR 0x27])"
      by (simp_all add: is_space_def)
    from 4 show ?thesis
      using alt_search_has_block[OF cl, of "[CHR 0x27, CHR 0x27, CHR 0x27]" content]
      by (simp add: doc_patterns_def alt_python_style_def delimiters_def)
  qed
qed

lemma scan_patterns_first:
  assumes "k < length ps" "re_search (ps ! k) content True = Some m"
    "\<forall>j<k. re_search (ps ! j) content True = None"
  shows "scan_patterns self fp content ps =
     (case make_doc self fp m of Inl e \<Rightarrow> Inl e | Inr d \<Rightarrow> Inr (Some d))"
  using assms
proof (induction ps arbitrary: k)
  case Nil
  then show ?case by simp
next
  case (Cons p ps)
  show ?case
  proof (cases k)
    case 0
    with Cons.prems(2) show ?thesis by simp
  next
    case (Suc k')
    from Cons.prems(3) Suc have p: "re_search p content True = None" by auto
    have "\<forall>j<k'. re_search (ps ! j) content True = None"
    proof (intro allI impI)
      fix j assume "j < k'"
      then have "Suc j < k" using Suc by simp
      from Cons.prems(3)[rule_format, OF this] show "re_search (ps ! j) content True = None" by simp
    qed
    with Cons.IH[of k'] Cons.prems(1,2) Suc p show ?thesis by simp
  qed
qed

lemma scan_patterns_Some:
  "scan_patterns self fp content ps = Inr (Some d) \<Longrightarrow> \<exists>m. make_doc self fp m = Inr d"
proof (induction ps)
  case Nil
  then show ?case by simp
next
  case (Cons p ps)
  then show ?case by (cases "re_search p content True") (auto split: sum.splits)
qed

lemma make_doc_created:
  "make_doc self fp m = Inr d \<Longrightarrow> created_info (description d) = Inr (created_with d, created_date d)"
  by (auto simp: make_doc_def Let_def split: sum.splits prod.splits)

lemma make_doc_single:
  assumes "prefix (root_dir self) fp"
  shows "\<exists>d. make_doc self fp [g] = Inr d \<and> description d = strip g \<and>
     path d = path_str (drop (length (root_dir self)) fp)"
proof -
  obtain cw cd where "created_info (strip g) = Inr (cw, cd)" using created_info_Inr by blast
  with assms show ?thesis by (simp add: make_doc_def group_def relative_to_def)
qed

lemma extract_created:
  assumes "fst (extract_doc_comment self fpn) = Some d"
  shows "created_info (description d) = Inr (created_with d, created_date d)"
proof -
  from assms obtain content where "scan_patterns self (fst fpn) content doc_patterns = Inr (Some d)"
    by (auto simp: extract_doc_comment_def split: sum.splits)
  from scan_patterns_Some[OF this] obtain m where "make_doc self (fst fpn) m = Inr d" by blast
  then show ?thesis by (rule make_doc_created)
qed

lemma extract_priority:
  assumes root: "prefix (root_dir self) fp" and k: "k < 4"
    and hk: "has_block (delimiters ! k) content"
    and before: "\<forall>j<k. \<not> has_block (delimiters ! j) content"
  shows "\<exists>d mid. extract_doc_comment self (fp, File (Inr content)) = (Some d, []) \<and>
     first_block (delimiters ! k) content mid \<and> description d = strip mid \<and>
     path d = path_str (drop (length (root_dir self)) fp)"
proof -
  from hk doc_pattern_has_block[OF k, of content]
  obtain m where m: "re_search (doc_patterns ! k) content True = Some m" by auto
  have none: "\<forall>j<k. re_search (doc_patterns ! j) content True = None"
  proof (intro allI impI)
    fix j assume j: "j < k"
    then have "j < 4" using k by simp
    from doc_pattern_has_block[OF this, of content] before j
    show "re_search (doc_patterns ! j) content True = None" by auto
  qed
  have len: "k < length doc_patterns" using k by (simp add: doc_patterns_def)
  from doc_pattern_first[OF k m] obtain g mid where g: "m = [g]"
    "first_block (delimiters ! k) content mid" "strip mid = strip g" by blast
  from make_doc_single[OF root, of g] obtain d where d: "make_doc self fp [g] = Inr d"
    "description d = strip g" "path d = path_str (drop (length (root_dir self)) fp)" by blast
  have "scan_patterns self fp content doc_patterns = Inr (Some d)"
    using scan_patterns_first[OF len m none, of self fp] g(1) d(1) by simp
  then have "extract_doc_comment self (fp, File (Inr content)) = (Some d, [])"
    by (simp add: extract_doc_comment_def)
  with g(2,3) d(2,3) show ?thesis by auto
qed


subsection \<open>The creation line\<close>

lemma line_close_None_iff:
  "re_match False [Lazy Dot, GroupClose, Chars [c]] s (Some s0) gs = None \<longleftrightarrow>
   \<not> (\<exists>date rest. s = date @ [c] @ rest \<and> CHR 0x0A \<notin> set date)"
proof (induction s)
  case Nil
  show ?case by simp
next
  case (Cons x xs)
  let ?P = "\<lambda>s. \<exists>date rest. s = date @ [c] @ rest \<and> CHR 0x0A \<notin> set date"
  show ?case
  proof (cases "x = c")
    case True
    have "x # xs = [] @ [c] @ xs \<and> CHR 0x0A \<notin> set ([]::string)" using True by simp
    then have "?P (x # xs)" by blast
    moreover have "re_match False [Lazy Dot, GroupClose, Chars [c]] (x # xs) (Some s0) gs \<noteq> None"
      using True by simp
    ultimately show ?thesis by blast
  next
    case False
    have step: "?P (x # xs) \<longleftrightarrow> x \<noteq> CHR 0x0A \<and> ?P xs"
    proof
      assume "?P (x # xs)"
      then obtain date rest where dr: "x # xs = date @ [c] @ rest" "CHR 0x0A \<notin> set date" by blast
      with False obtain date' where d: "date = x # date'" by (cases date) auto
      with dr have "xs = date' @ [c] @ rest \<and> CHR 0x0A \<notin> set date'" "x \<noteq> CHR 0x0A" by auto
      then show "x \<noteq> CHR 0x0A \<and> ?P xs" by blast
    next
      assume "x \<noteq> CHR 0x0A \<and> ?P xs"
      then obtain date rest where dr: "xs = date @ [c] @ rest" "CHR 0x0A \<notin> set date" "x \<noteq> CHR 0x0A" by blast
      then have "x # xs = (x # date) @ [c] @ rest \<and> CHR 0x0A \<notin> set (x # date)" by simp
      then show "?P (x # xs)" by blast
    qed
    have "re_match False [Lazy Dot, GroupClose, Chars [c]] (x # xs) (Some s0) gs =
        (if x \<noteq> CHR 0x0A then re_match False [Lazy Dot, GroupClose, Chars [c]] xs (Some s0) gs else None)"
      using False by simp
    with Cons.IH step show ?thesis by simp
  qed
qed

lemma line_open_None_iff:
  "re_match False [Lazy Dot, GroupClose, Chars [a], GroupOpen, Lazy Dot, GroupClose, Chars [c]] s (Some s0) gs = None \<longleftrightarrow>
   \<not> (\<exists>agent date rest. s = agent @ [a] @ date @ [c] @ rest \<and>
         CHR 0x0A \<notin> set agent \<and> CHR 0x0A \<notin> set date)"
proof (induction s)
  case Nil
  show ?case by simp
next
  case (Cons x xs)
  let ?R = "[Lazy Dot, GroupClose, Chars [a], GroupOpen, Lazy Dot, GroupClose, Chars [c]]"
  let ?I = "[Lazy Dot, GroupClose, Chars [c]]"
  let ?Q = "\<lambda>s. \<exists>date rest. s = date @ [c] @ rest \<and> CHR 0x0A \<notin> set date"
  let ?P = "\<lambda>s. \<exists>agent date rest. s = agent @ [a] @ date @ [c] @ rest \<and>
         CHR 0x0A \<notin> set agent \<and> CHR 0x0A \<notin> set date"
  define gs' where "gs' = gs @ [take (length s0 - length (x # xs)) s0]"
  have inner: "re_match False ?I xs (Some xs) gs' = None \<longleftrightarrow> \<not> ?Q xs"
    by (rule line_close_None_iff)
  have step: "?P (x # xs) \<longleftrightarrow> (x = a \<and> ?Q xs) \<or> (x \<noteq> CHR 0x0A \<and> ?P xs)"
  proof
    assume "?P (x # xs)"
    then obtain agent date rest where dr: "x # xs = agent @ [a] @ date @ [c] @ rest"
      "CHR 0x0A \<notin> set agent" "CHR 0x0A \<notin> set date" by blast
    show "(x = a \<and> ?Q xs) \<or> (x \<noteq> CHR 0x0A \<and> ?P xs)"
    proof (cases agent)
      case Nil
      with dr have "x = a" "xs = date @ [c] @ rest \<and> CHR 0x0A \<notin> set date" by auto
      then show ?thesis by blast
    next
      case (Cons y agent')
      with dr have "x \<noteq> CHR 0x0A"
        "xs = agent' @ [a] @ date @ [c] @ rest \<and> CHR 0x0A \<notin> set agent' \<and> CHR 0x0A \<notin> set date"
        by auto
      then show ?thesis by blast
    qed
  next
    assume "(x = a \<and> ?Q xs) \<or> (x \<noteq> CHR 0x0A \<and> ?P xs)"
    then show "?P (x # xs)"
    proof
      assume "x = a \<and> ?Q xs"
      then obtain date rest where "x = a" "xs = date @ [c] @ rest" "CHR 0x0A \<notin> set date" by blast
      then have "x # xs = [] @ [a] @ date @ [c] @ rest \<and> CHR 0x0A \<notin> set ([]::string) \<and> CHR 0x0A \<notin> set date"
        by simp
      then show "?P (x # xs)" by blast
    next
      assume "x \<noteq> CHR 0x0A \<and> ?P xs"
      then obtain agent date rest where "x \<noteq> CHR 0x0A" "xs = agent @ [a] @ date @ [c] @ rest"
        "CHR 0x0A \<notin> set agent" "CHR 0x0A \<notin> set date" by blast
      then have "x # xs = (x # agent) @ [a] @ date @ [c] @ rest \<and> CHR 0x0A \<notin> set (x # agent) \<and> CHR 0x0A \<notin> set date"
        by simp
      then show "?P (x # xs)" by blast
    qed
  qed
  have unfold: "re_match False ?R (x # xs) (Some s0) gs =
      (case (if x = a then re_match False ?I xs (Some xs) gs' else None) of
         Some m \<Rightarrow> Some m
       | None \<Rightarrow> if x \<noteq> CHR 0x0A then re_match False ?R xs (Some s0) gs else None)"
    by (subst re_match.simps(5)) (simp del: re_match.simps(5) add: gs'_def split: option.split)
  show ?case
  proof (cases "x = a \<and> ?Q xs")
    case True
    with inner obtain m where "re_match False ?I xs (Some xs) gs' = Some m" by auto
    with True unfold have "re_match False ?R (x # xs) (Some s0) gs \<noteq> None" by simp
    with True step show ?thesis by blast
  next
    case False
    with inner have "(if x = a then re_match False ?I xs (Some xs) gs' else None) = None" by auto
    with unfold have "re_match False ?R (x # xs) (Some s0) gs =
        (if x \<noteq> CHR 0x0A then re_match False ?R xs (Some s0) gs else None)" by simp
    with Cons.IH step False show ?thesis by auto
  qed
qed

lemma created_match_None_iff:
  "re_match False created_pattern s None [] = None \<longleftrightarrow> \<not> annotation_at s"
proof (cases "prefix ''Created with '' s")
  case False
  then have "re_match False created_pattern s None [] = None" by (simp add: created_pattern_def)
  moreover from False have "\<not> annotation_at s" by (auto simp: annotation_at_def prefix_def)
  ultimately show ?thesis by simp
next
  case True
  then obtain t where t: "s = ''Created with '' @ t" by (auto simp: prefix_def)
  have "re_match False created_pattern s None [] =
      re_match False [Lazy Dot, GroupClose, Chars ''('', GroupOpen, Lazy Dot, GroupClose, Chars '')''] t (Some t) []"
    using t by (simp add: created_pattern_def)
  moreover have "annotation_at s \<longleftrightarrow> (\<exists>agent date rest. t = agent @ ''('' @ date @ '')'' @ rest \<and>
         CHR 0x0A \<notin> set agent \<and> CHR 0x0A \<notin> set date)"
    using t by (simp add: annotation_at_def)
  ultimately show ?thesis
    using line_open_None_iff[of "CHR ''(''" "CHR '')''" t t "[]"] by (simp del: re_match.simps)
qed

lemma created_match_Foo:
  "re_match False created_pattern (''Created with Foo (2024-01-02)'' @ post) None [] =
     Some [''Foo '', ''2024-01-02'']"
  by (simp add: created_pattern_def)


subsection \<open>Priority and trimming\<close>

lemma strip_decomp:
  "\<exists>l r. s = l @ strip s @ r \<and> (\<forall>c\<in>set l. is_space c) \<and> (\<forall>c\<in>set r. is_space c)"
proof -
  let ?t = "dropWhile is_space s"
  have "rev (dropWhile is_space (rev ?t)) @ rev (takeWhile is_space (rev ?t)) = ?t"
    by (simp flip: rev_append)
  then have t: "?t = strip s @ rev (takeWhile is_space (rev ?t))" by (simp add: strip_def)
  have "s = takeWhile is_space s @ ?t" by simp
  with t have "s = takeWhile is_space s @ strip s @ rev (takeWhile is_space (rev ?t))" by simp
  moreover have "\<forall>c\<in>set (takeWhile is_space s). is_space c" by (auto dest: set_takeWhileD)
  moreover have "\<forall>c\<in>set (rev (takeWhile is_space (rev ?t))). is_space c" by (auto dest: set_takeWhileD)
  ultimately show ?thesis by blast
qed

lemma no_block_eval:
  "k < 4 \<Longrightarrow> re_search (doc_patterns ! k) content True = None \<Longrightarrow> \<not> has_block (delimiters ! k) content"
  using doc_pattern_has_block[of k content] by simp

lemma has_block_eval:
  "k < 4 \<Longrightarrow> re_search (doc_patterns ! k) content True = Some m \<Longrightarrow> has_block (delimiters ! k) content"
  using doc_pattern_has_block[of k content] by simp

lemmas eval_defs = extract_doc_comment_def doc_patterns_def python_style_def c_style_def powershell_def
  alt_python_style_def make_doc_def created_info_def created_pattern_def group_def strip_def
  is_space_def relative_to_def path_str_def

text \<open>
  C1: when the text has a block for two different delimiter pairs, the record comes
  from the pair that is earliest in the priority order among those that have one, and
  from its first occurrence (\<open>first_block\<close>); where in the text the blocks of the other
  pairs lie is not asked.  \<open>i\<close> is that earliest pair, \<open>j\<close> any later pair with a block.
\<close>

theorem priority_order_wins:
  assumes "prefix (root_dir self) file_path"
    and "i < j" and "j < 4"
    and "has_block (delimiters ! i) content" and "has_block (delimiters ! j) content"
    and "\<forall>k<i. \<not> has_block (delimiters ! k) content"
  shows "\<exists>d mid. extract_doc_comment self (file_path, File (Inr content)) = (Some d, []) \<and>
           first_block (delimiters ! i) content mid \<and> description d = strip mid"
proof -
  from assms(2,3) have "i < 4" by simp
  from extract_priority[OF assms(1) this assms(4) assms(6)] show ?thesis by blast
qed

text \<open>
  Witness of C1.  The hypotheses hold for a text whose C-style block comes before the triple-quote
  block; the record is the one of the triple-quote block.
\<close>

theorem priority_order_wins_witness:
  "prefix (root_dir (new_gatherer [''repo''])) [''repo'', ''a.py''] \<and> (0::nat) < 1 \<and> (1::nat) < 4 \<and>
   has_block (delimiters ! 0) (''/** c */ '' @ [CHR 0x22, CHR 0x22, CHR 0x22] @ '' d '' @ [CHR 0x22, CHR 0x22, CHR 0x22]) \<and>
   has_block (delimiters ! 1) (''/** c */ '' @ [CHR 0x22, CHR 0x22, CHR 0x22] @ '' d '' @ [CHR 0x22, CHR 0x22, CHR 0x22]) \<and>
   \<not> (\<exists>k<0. has_block (delimiters ! k) (''/** c */ '' @ [CHR 0x22, CHR 0x22, CHR 0x22] @ '' d '' @ [CHR 0x22, CHR 0x22, CHR 0x22])) \<and>
   (\<exists>d mid. extract_doc_comment (new_gatherer [''repo''])
        ([''repo'', ''a.py''], File (Inr (''/** c */ '' @ [CHR 0x22, CHR 0x22, CHR 0x22] @ '' d '' @ [CHR 0x22, CHR 0x22, CHR 0x22]))) = (Some d, []) \<and>
      first_block (delimiters ! 0) (''/** c */ '' @ [CHR 0x22, CHR 0x22, CHR 0x22] @ '' d '' @ [CHR 0x22, CHR 0x22, CHR 0x22]) mid \<and>
      description d = strip mid) \<and>
   fst (extract_doc_comment (new_gatherer [''repo''])
        ([''repo'', ''a.py''], File (Inr (''/** c */ '' @ [CHR 0x22, CHR 0x22, CHR 0x22] @ '' d '' @ [CHR 0x22, CHR 0x22, CHR 0x22]))))
     = Some \<lparr>path = ''a.py'', description = ''d'', created_date = None, created_with = None\<rparr>"
proof -
  let ?C = "''/** c */ '' @ [CHR 0x22, CHR 0x22, CHR 0x22] @ '' d '' @ [CHR 0x22, CHR 0x22, CHR 0x22]"
  have h1: "prefix (root_dir (new_gatherer [''repo''])) [''repo'', ''a.py'']"
    by (simp add: new_gatherer_def)
  have h2: "(0::nat) < 1" and h3: "(1::nat) < 4" by simp_all
  have "re_search (doc_patterns ! 0) ?C True = Some ['' d '']" by (simp add: eval_defs)
  then have h4: "has_block (delimiters ! 0) ?C" by (rule has_block_eval[rotated]) simp
  have "re_search (doc_patterns ! 1) ?C True = Some ['' c '']" by (simp add: eval_defs)
  then have h5: "has_block (delimiters ! 1) ?C" by (rule has_block_eval[rotated]) simp
  have h6: "\<forall>k<0. \<not> has_block (delimiters ! k) ?C" by simp
  have e: "fst (extract_doc_comment (new_gatherer [''repo'']) ([''repo'', ''a.py''], File (Inr ?C)))
     = Some \<lparr>path = ''a.py'', description = ''d'', created_date = None, created_with = None\<rparr>"
    by (simp add: eval_defs new_gatherer_def)
  from priority_order_wins[OF h1 h2 h3 h4 h5 h6] h1 h2 h3 h4 h5 h6 e show ?thesis by blast
qed

text \<open>
  C2: when exactly one of the four delimiter pairs has a block in the text, a record is
  returned whose description is the text between the delimiters of the first block,
  trimmed: only whitespace is removed, at the two ends.
\<close>

theorem single_pattern_description:
  assumes "prefix (root_dir self) file_path"
    and "k < 4"
    and "has_block (delimiters ! k) content"
    and "\<forall>j<4. j \<noteq> k \<longrightarrow> \<not> has_block (delimiters ! j) content"
  shows "\<exists>d mid l r. extract_doc_comment self (file_path, File (Inr content)) = (Some d, []) \<and>
           first_block (delimiters ! k) content mid \<and>
           description d = strip mid \<and>
           mid = l @ description d @ r \<and> (\<forall>c\<in>set l. is_space c) \<and> (\<forall>c\<in>set r. is_space c)"
proof -
  have "\<forall>j<k. \<not> has_block (delimiters ! j) content"
  proof (intro allI impI)
    fix j assume "j < k"
    with assms(2) have "j < 4" "j \<noteq> k" by simp_all
    with assms(4) show "\<not> has_block (delimiters ! j) content" by blast
  qed
  from extract_priority[OF assms(1,2,3) this] obtain d mid where
    d: "extract_doc_comment self (file_path, File (Inr content)) = (Some d, [])"
       "first_block (delimiters ! k) content mid" "description d = strip mid" by blast
  from strip_decomp[of mid] obtain l r where
    "mid = l @ strip mid @ r" "\<forall>c\<in>set l. is_space c" "\<forall>c\<in>set r. is_space c" by blast
  with d show ?thesis by auto
qed

text \<open>
  Witness of C2.  The hypotheses hold for a text with one angle-hash block of two lines.
\<close>

theorem single_pattern_description_witness:
  "prefix (root_dir (new_gatherer [''repo''])) [''repo'', ''setup.ps1''] \<and> (2::nat) < 4 \<and>
   has_block (delimiters ! 2) ''x <#  two\<newline>  lines  #> y'' \<and>
   \<not> (\<exists>j<4. j \<noteq> 2 \<and> has_block (delimiters ! j) ''x <#  two\<newline>  lines  #> y'') \<and>
   (\<exists>d mid l r. extract_doc_comment (new_gatherer [''repo''])
        ([''repo'', ''setup.ps1''], File (Inr ''x <#  two\<newline>  lines  #> y'')) = (Some d, []) \<and>
      first_block (delimiters ! 2) ''x <#  two\<newline>  lines  #> y'' mid \<and>
      description d = strip mid \<and>
      mid = l @ description d @ r \<and> (\<forall>c\<in>set l. is_space c) \<and> (\<forall>c\<in>set r. is_space c)) \<and>
   fst (extract_doc_comment (new_gatherer [''repo''])
        ([''repo'', ''setup.ps1''], File (Inr ''x <#  two\<newline>  lines  #> y'')))
     = Some \<lparr>path = ''setup.ps1'', description = ''two\<newline>  lines'',
             created_date = None, created_with = None\<rparr>"
proof -
  let ?C = "''x <#  two\<newline>  lines  #> y''"
  have h1: "prefix (root_dir (new_gatherer [''repo''])) [''repo'', ''setup.ps1'']"
    by (simp add: new_gatherer_def)
  have h2: "(2::nat) < 4" by simp
  have "re_search (doc_patterns ! 2) ?C True = Some [''  two\<newline>  lines  '']" by (simp add: eval_defs)
  then have h3: "has_block (delimiters ! 2) ?C" by (rule has_block_eval[rotated]) simp
  have n0: "\<not> has_block (delimiters ! 0) ?C" by (rule no_block_eval) (simp_all add: eval_defs)
  have n1: "\<not> has_block (delimiters ! 1) ?C" by (rule no_block_eval) (simp_all add: eval_defs)
  have n3: "\<not> has_block (delimiters ! 3) ?C" by (rule no_block_eval) (simp_all add: eval_defs)
  have h4: "\<forall>j<4. j \<noteq> 2 \<longrightarrow> \<not> has_block (delimiters ! j) ?C"
  proof (intro allI impI)
    fix j :: nat assume "j < 4" "j \<noteq> 2"
    then consider "j = 0" | "j = 1" | "j = 3" by linarith
    then show "\<not> has_block (delimiters ! j) ?C" using n0 n1 n3 by cases simp_all
  qed
  have e: "fst (extract_doc_comment (new_gatherer [''repo'']) ([''repo'', ''setup.ps1''], File (Inr ?C)))
     = Some \<lparr>path = ''setup.ps1'', description = ''two\<newline>  lines'',
             created_date = None, created_with = None\<rparr>"
    by (simp add: eval_defs new_gatherer_def)
  from single_pattern_description[OF h1 h2 h3 h4] h1 h2 h3 h4 e show ?thesis by blast
qed

text \<open>
  C4: in every record the extractor returns, \<open>created_with\<close> and \<open>created_date\<close> are
  both set or both unset.
\<close>

theorem created_both_or_neither:
  assumes "fst (extract_doc_comment self file_path) = Some d"
  shows "created_with d = None \<longleftrightarrow> created_date d = None"
proof -
  from extract_created[OF assms]
  have "created_info (description d) = Inr (created_with d, created_date d)" .
  with created_info_Inr[of "description d"] show ?thesis by auto
qed

text \<open>
  Witness of C4.  A record of the extractor with an empty but set \<open>created_with\<close>.
\<close>

theorem created_both_or_neither_witness:
  "fst (extract_doc_comment (new_gatherer [''repo''])
        ([''repo'', ''a.sh''], File (Inr ''/** Tool. Created with  (x) */'')))
     = Some \<lparr>path = ''a.sh'', description = ''Tool. Created with  (x)'',
             created_date = Some ''x'', created_with = Some ''''\<rparr> \<and>
   (created_with \<lparr>path = ''a.sh'', description = ''Tool. Created with  (x)'',
             created_date = Some ''x'', created_with = Some ''''\<rparr> = None \<longleftrightarrow>
    created_date \<lparr>path = ''a.sh'', description = ''Tool. Created with  (x)'',
             created_date = Some ''x'', created_with = Some ''''\<rparr> = None)"
proof -
  have e: "fst (extract_doc_comment (new_gatherer [''repo''])
        ([''repo'', ''a.sh''], File (Inr ''/** Tool. Created with  (x) */'')))
     = Some \<lparr>path = ''a.sh'', description = ''Tool. Created with  (x)'',
             created_date = Some ''x'', created_with = Some ''''\<rparr>"
    by (simp add: eval_defs new_gatherer_def)
  from created_both_or_neither[OF e] e show ?thesis by blast
qed


subsection \<open>The creation fields\<close>

lemma no_annotation_eval:
  assumes "re_search created_pattern doc False = None"
  shows "\<forall>i\<le>length doc. \<not> annotation_at (drop i doc)"
proof (intro allI impI)
  fix i assume i: "i \<le> length doc"
  from assms have "\<forall>i\<le>length doc. re_match False created_pattern (drop i doc) None [] = None"
    by (simp only: re_search_None_iff)
  from this[rule_format, OF i] show "\<not> annotation_at (drop i doc)"
    by (rule created_match_None_iff[THEN iffD1])
qed

lemma all_less_list_all: "(\<forall>i<n. P i) \<longleftrightarrow> list_all P [0..<n]"
  by (auto simp: list_all_iff)

text \<open>
  C3, as amended: when the description contains \<open>Created with Foo (2024-01-02)\<close> and no
  annotation starts earlier in it, the record has \<open>created_with = Foo\<close> and
  \<open>created_date = 2024-01-02\<close>; when no annotation starts anywhere in the description,
  both fields are unset; and the scenario of the specification yields the record given
  there.
\<close>

theorem created_annotation_first:
  assumes "fst (extract_doc_comment self file_path) = Some d"
  shows "(\<forall>pre post.
            description d = pre @ ''Created with Foo (2024-01-02)'' @ post \<and>
            (\<forall>i<length pre. \<not> annotation_at (drop i (description d))) \<longrightarrow>
            created_with d = Some ''Foo'' \<and> created_date d = Some ''2024-01-02'') \<and>
         ((\<forall>i\<le>length (description d). \<not> annotation_at (drop i (description d))) \<longrightarrow>
            created_with d = None \<and> created_date d = None) \<and>
         (\<forall>g fp. prefix (root_dir g) fp \<longrightarrow>
            extract_doc_comment g
              (fp, File (Inr ([CHR 0x22, CHR 0x22, CHR 0x22] @
                              ''Hello\<newline>Created with Claude (2024-01-02)\<newline>'' @
                              [CHR 0x22, CHR 0x22, CHR 0x22]))) =
            (Some \<lparr>path = path_str (drop (length (root_dir g)) fp),
                   description = ''Hello\<newline>Created with Claude (2024-01-02)'',
                   created_date = Some ''2024-01-02'', created_with = Some ''Claude''\<rparr>, []))"
proof (intro conjI allI impI)
  fix pre post
  assume a: "description d = pre @ ''Created with Foo (2024-01-02)'' @ post \<and>
            (\<forall>i<length pre. \<not> annotation_at (drop i (description d)))"
  from extract_created[OF assms]
  have ci: "created_info (description d) = Inr (created_with d, created_date d)" .
  from a have desc: "description d = pre @ ''Created with Foo (2024-01-02)'' @ post"
    by (rule conjunct1)
  from a have na: "\<forall>i<length pre. \<not> annotation_at (drop i (description d))"
    by (rule conjunct2)
  have "\<forall>i<length pre. re_match False created_pattern (drop i (description d)) None [] = None"
  proof (intro allI impI)
    fix i assume "i < length pre"
    from na[rule_format, OF this]
    show "re_match False created_pattern (drop i (description d)) None [] = None"
      by (rule created_match_None_iff[THEN iffD2])
  qed
  then have "\<forall>i<length pre. re_match False created_pattern
          (drop i (pre @ ''Created with Foo (2024-01-02)'' @ post)) None [] = None"
    by (simp only: desc)
  from re_search_skip[OF this created_match_Foo]
  have "re_search created_pattern (description d) False = Some [''Foo '', ''2024-01-02'']"
    by (simp only: desc)
  then have "created_info (description d) = Inr (Some ''Foo'', Some ''2024-01-02'')"
    by (simp add: created_info_def group_def strip_def is_space_def)
  with ci show "created_with d = Some ''Foo''" "created_date d = Some ''2024-01-02''" by simp_all
next
  assume a: "\<forall>i\<le>length (description d). \<not> annotation_at (drop i (description d))"
  from extract_created[OF assms]
  have ci: "created_info (description d) = Inr (created_with d, created_date d)" .
  have "\<forall>i\<le>length (description d). re_match False created_pattern (drop i (description d)) None [] = None"
  proof (intro allI impI)
    fix i assume "i \<le> length (description d)"
    with a have "\<not> annotation_at (drop i (description d))" by simp
    then show "re_match False created_pattern (drop i (description d)) None [] = None"
      by (rule created_match_None_iff[THEN iffD2])
  qed
  then have "re_search created_pattern (description d) False = None"
    by (simp only: re_search_None_iff)
  then have "created_info (description d) = Inr (None, None)" by (simp add: created_info_def)
  with ci show "created_with d = None" "created_date d = None" by simp_all
next
  fix g :: DocGatherer and fp
  assume "prefix (root_dir g) fp"
  then show "extract_doc_comment g
              (fp, File (Inr ([CHR 0x22, CHR 0x22, CHR 0x22] @
                              ''Hello\<newline>Created with Claude (2024-01-02)\<newline>'' @
                              [CHR 0x22, CHR 0x22, CHR 0x22]))) =
            (Some \<lparr>path = path_str (drop (length (root_dir g)) fp),
                   description = ''Hello\<newline>Created with Claude (2024-01-02)'',
                   created_date = Some ''2024-01-02'', created_with = Some ''Claude''\<rparr>, [])"
    by (simp add: extract_doc_comment_def doc_patterns_def python_style_def make_doc_def
        created_info_def created_pattern_def group_def strip_def is_space_def relative_to_def)
qed

text \<open>
  Witness of C3.  The three parts at concrete files: an annotation after other text with parentheses,
  a comment without annotation, and the scenario.
\<close>

theorem created_annotation_first_witness:
  "fst (extract_doc_comment (new_gatherer [''repo''])
        ([''repo'', ''a.py''], File (Inr (''/** A (b) Created with Foo (2024-01-02) by hand */''))))
     = Some \<lparr>path = ''a.py'', description = ''A (b) Created with Foo (2024-01-02) by hand'',
             created_date = Some ''2024-01-02'', created_with = Some ''Foo''\<rparr> \<and>
   ''A (b) Created with Foo (2024-01-02) by hand'' = ''A (b) '' @ ''Created with Foo (2024-01-02)'' @ '' by hand'' \<and>
   \<not> (\<exists>i<length ''A (b) ''. annotation_at (drop i ''A (b) Created with Foo (2024-01-02) by hand'')) \<and>
   fst (extract_doc_comment (new_gatherer [''repo'']) ([''repo'', ''b.py''], File (Inr ''<# Created with care #>'')))
     = Some \<lparr>path = ''b.py'', description = ''Created with care'',
             created_date = None, created_with = None\<rparr> \<and>
   \<not> (\<exists>i\<le>length ''Created with care''. annotation_at (drop i ''Created with care'')) \<and>
   prefix (root_dir (new_gatherer [''repo''])) [''repo'', ''c.py''] \<and>
   extract_doc_comment (new_gatherer [''repo''])
      ([''repo'', ''c.py''], File (Inr ([CHR 0x22, CHR 0x22, CHR 0x22] @
                              ''Hello\<newline>Created with Claude (2024-01-02)\<newline>'' @
                              [CHR 0x22, CHR 0x22, CHR 0x22]))) =
      (Some \<lparr>path = ''c.py'',
             description = ''Hello\<newline>Created with Claude (2024-01-02)'',
             created_date = Some ''2024-01-02'', created_with = Some ''Claude''\<rparr>, [])"
proof -
  let ?d = "\<lparr>path = ''a.py'', description = ''A (b) Created with Foo (2024-01-02) by hand'',
             created_date = Some ''2024-01-02'', created_with = Some ''Foo''\<rparr>"
  have e1: "fst (extract_doc_comment (new_gatherer [''repo''])
        ([''repo'', ''a.py''], File (Inr (''/** A (b) Created with Foo (2024-01-02) by hand */'')))) = Some ?d"
    by (simp add: eval_defs new_gatherer_def)
  have s1: "''A (b) Created with Foo (2024-01-02) by hand'' = ''A (b) '' @ ''Created with Foo (2024-01-02)'' @ '' by hand''"
    by simp
  have "\<forall>i<length ''A (b) ''. re_match False created_pattern
       (drop i ''A (b) Created with Foo (2024-01-02) by hand'') None [] = None"
    by (simp add: all_less_list_all created_pattern_def)
  then have n1: "\<forall>i<length ''A (b) ''. \<not> annotation_at (drop i ''A (b) Created with Foo (2024-01-02) by hand'')"
    by (simp only: created_match_None_iff)
  have e2: "fst (extract_doc_comment (new_gatherer [''repo'']) ([''repo'', ''b.py''], File (Inr ''<# Created with care #>'')))
     = Some \<lparr>path = ''b.py'', description = ''Created with care'',
             created_date = None, created_with = None\<rparr>"
    by (simp add: eval_defs new_gatherer_def)
  have "re_search created_pattern ''Created with care'' False = None"
    by (simp add: created_pattern_def)
  then have n2: "\<forall>i\<le>length ''Created with care''. \<not> annotation_at (drop i ''Created with care'')"
    by (rule no_annotation_eval)
  have p: "prefix (root_dir (new_gatherer [''repo''])) [''repo'', ''c.py'']"
    by (simp add: new_gatherer_def)
  have c: "path_str (drop (length (root_dir (new_gatherer [''repo'']))) [''repo'', ''c.py'']) = ''c.py''"
    by (simp add: new_gatherer_def path_str_def)
  from created_annotation_first[OF e1] have
    "extract_doc_comment (new_gatherer [''repo''])
      ([''repo'', ''c.py''], File (Inr ([CHR 0x22, CHR 0x22, CHR 0x22] @
                              ''Hello\<newline>Created with Claude (2024-01-02)\<newline>'' @
                              [CHR 0x22, CHR 0x22, CHR 0x22]))) =
      (Some \<lparr>path = path_str (drop (length (root_dir (new_gatherer [''repo'']))) [''repo'', ''c.py'']),
             description = ''Hello\<newline>Created with Claude (2024-01-02)'',
             created_date = Some ''2024-01-02'', created_with = Some ''Claude''\<rparr>, [])"
    using p by blast
  then have sc: "extract_doc_comment (new_gatherer [''repo''])
      ([''repo'', ''c.py''], File (Inr ([CHR 0x22, CHR 0x22, CHR 0x22] @
                              ''Hello\<newline>Created with Claude (2024-01-02)\<newline>'' @
                              [CHR 0x22, CHR 0x22, CHR 0x22]))) =
      (Some \<lparr>path = ''c.py'',
             description = ''Hello\<newline>Created with Claude (2024-01-02)'',
             created_date = Some ''2024-01-02'', created_with = Some ''Claude''\<rparr>, [])"
    by (simp only: c)
  from n1 have m1: "\<not> (\<exists>i<length ''A (b) ''. annotation_at (drop i ''A (b) Created with Foo (2024-01-02) by hand''))"
    by blast
  from n2 have m2: "\<not> (\<exists>i\<le>length ''Created with care''. annotation_at (drop i ''Created with care''))"
    by blast
  show ?thesis by (rule conjI e1 s1 m1 e2 m2 p sc)+
qed

text \<open>
  C3 as stated fails: the comment below contains \<open>Created with Foo (2024-01-02)\<close>, and
  the record names \<open>Bar\<close>, the agent of the annotation that comes first.
\<close>

theorem created_annotation_counterexample:
  "fst (extract_doc_comment (new_gatherer [''repo''])
        ([''repo'', ''a.py''],
         File (Inr ([CHR 0x22, CHR 0x22, CHR 0x22] @
                    ''Created with Bar (1)\<newline>Created with Foo (2024-01-02)'' @
                    [CHR 0x22, CHR 0x22, CHR 0x22]))))
     = Some \<lparr>path = ''a.py'',
             description = ''Created with Bar (1)\<newline>'' @ ''Created with Foo (2024-01-02)'',
             created_date = Some ''1'', created_with = Some ''Bar''\<rparr> \<and>
   Some ''Bar'' \<noteq> Some ''Foo''"
  by (simp add: eval_defs new_gatherer_def)


section \<open>The report\<close>

lemma join_append:
  "xs \<noteq> [] \<Longrightarrow> join sep (xs @ ys) = join sep xs @ concat (map (\<lambda>entry. sep @ entry) ys)"
proof (induction sep xs rule: join.induct)
  case (1 sep)
  then show ?case by simp
next
  case (2 sep x)
  show ?case by (induction ys arbitrary: x) simp_all
next
  case (3 sep x y ys')
  then show ?case by simp
qed

lemma append_doc_append: "append_doc acc doc = acc @ append_doc [] doc"
  by (simp add: append_doc_def Let_def split: option.split)

lemma foldl_append_doc:
  "foldl append_doc acc docs = acc @ concat (map (append_doc []) docs)"
proof (induction docs arbitrary: acc)
  case Nil
  show ?case by simp
next
  case (Cons doc docs)
  have "foldl append_doc acc (doc # docs) = foldl append_doc (append_doc acc doc) docs" by simp
  also have "\<dots> = append_doc acc doc @ concat (map (append_doc []) docs)" by (rule Cons.IH)
  also have "\<dots> = acc @ append_doc [] doc @ concat (map (append_doc []) docs)"
    using append_doc_append[of acc doc] by simp
  finally show ?case by simp
qed

lemma format_output_blocks:
  "format_output self docs = format_output self [] @ concat (map record_block docs)"
proof -
  have "format_output self docs =
      join ''\<newline>'' ([project_context self, section_header] @ concat (map (append_doc []) docs))"
    by (simp only: format_output_def foldl_append_doc)
  also have "\<dots> = join ''\<newline>'' [project_context self, section_header] @
      concat (map (\<lambda>entry. ''\<newline>'' @ entry) (concat (map (append_doc []) docs)))"
    by (rule join_append) simp
  also have "concat (map (\<lambda>entry. ''\<newline>'' @ entry) (concat (map (append_doc []) docs)))
      = concat (map record_block docs)"
    by (induction docs) (simp_all add: record_block_def)
  finally show ?thesis by (simp add: format_output_def)
qed

lemma format_output_append:
  "format_output self (ds1 @ ds2) = format_output self ds1 @ concat (map record_block ds2)"
  using format_output_blocks[of self "ds1 @ ds2"] format_output_blocks[of self ds1] by simp

lemma record_block_created:
  assumes "created_with doc = Some w" "created_date doc = Some d" "w \<noteq> []" "d \<noteq> []"
  shows "record_block doc =
     ''\<newline>\<newline>'' @ path doc @ ''\<newline>'' @ replicate (length (path doc)) (CHR ''-'') @
     ''\<newline>'' @ description doc @ ''\<newline>\<newline>Created with '' @ w @ '' ('' @ d @ '')'' @
     ''\<newline>\<newline>''"
  using assms by (simp add: record_block_def append_doc_def Let_def)

lemma record_block_plain:
  assumes "created_with doc = None \<or> created_date doc = None \<or>
           created_with doc = Some [] \<or> created_date doc = Some []"
  shows "record_block doc =
     ''\<newline>\<newline>'' @ path doc @ ''\<newline>'' @ replicate (length (path doc)) (CHR ''-'') @
     ''\<newline>'' @ description doc @ ''\<newline>\<newline>''"
  using assms by (auto simp: record_block_def append_doc_def Let_def split: option.splits)

text \<open>
  C6: the report of the empty sequence of records is the preamble and the section
  header, joined by the line separator of the report, and nothing else.
\<close>

theorem format_output_empty:
  "format_output (new_gatherer root) [] = preamble @ ''\<newline>'' @ section_header"
  by (simp add: format_output_def new_gatherer_def)


text \<open>
  C5, as amended: in the report of any sequence, the record \<open>doc\<close> contributes, after what
  comes before it and before what comes after, its block: the path, an underline of as
  many dashes as the path has characters, the description, and the line
  \<open>Created with X (Y)\<close> exactly when both fields are set and neither is the empty string.
\<close>

theorem format_output_record:
  "format_output self (ds1 @ doc # ds2) =
     format_output self ds1 @ record_block doc @ concat (map record_block ds2) \<and>
   (\<forall>w d. created_with doc = Some w \<and> created_date doc = Some d \<and> w \<noteq> [] \<and> d \<noteq> [] \<longrightarrow>
      record_block doc =
        ''\<newline>\<newline>'' @ path doc @ ''\<newline>'' @ replicate (length (path doc)) (CHR ''-'') @
        ''\<newline>'' @ description doc @ ''\<newline>\<newline>Created with '' @ w @ '' ('' @ d @ '')'' @
        ''\<newline>\<newline>'') \<and>
   (created_with doc = None \<or> created_date doc = None \<or>
    created_with doc = Some [] \<or> created_date doc = Some [] \<longrightarrow>
      record_block doc =
        ''\<newline>\<newline>'' @ path doc @ ''\<newline>'' @ replicate (length (path doc)) (CHR ''-'') @
        ''\<newline>'' @ description doc @ ''\<newline>\<newline>'')"
proof (intro conjI allI impI)
  show "format_output self (ds1 @ doc # ds2) =
     format_output self ds1 @ record_block doc @ concat (map record_block ds2)"
    using format_output_append[of self ds1 "doc # ds2"] by simp
next
  fix w d
  assume "created_with doc = Some w \<and> created_date doc = Some d \<and> w \<noteq> [] \<and> d \<noteq> []"
  then show "record_block doc =
        ''\<newline>\<newline>'' @ path doc @ ''\<newline>'' @ replicate (length (path doc)) (CHR ''-'') @
        ''\<newline>'' @ description doc @ ''\<newline>\<newline>Created with '' @ w @ '' ('' @ d @ '')'' @
        ''\<newline>\<newline>''"
    using record_block_created[of doc w d] by blast
next
  assume "created_with doc = None \<or> created_date doc = None \<or>
    created_with doc = Some [] \<or> created_date doc = Some []"
  then show "record_block doc =
        ''\<newline>\<newline>'' @ path doc @ ''\<newline>'' @ replicate (length (path doc)) (CHR ''-'') @
        ''\<newline>'' @ description doc @ ''\<newline>\<newline>''"
    by (rule record_block_plain)
qed

text \<open>
  Witness of C5.  A report of two records, one with the line and one without.
\<close>

theorem format_output_record_witness:
  "created_with \<lparr>path = ''a.py'', description = ''Hello'', created_date = Some ''2024-01-02'',
                 created_with = Some ''Claude''\<rparr> = Some ''Claude'' \<and>
   created_date \<lparr>path = ''a.py'', description = ''Hello'', created_date = Some ''2024-01-02'',
                 created_with = Some ''Claude''\<rparr> = Some ''2024-01-02'' \<and>
   record_block \<lparr>path = ''a.py'', description = ''Hello'', created_date = Some ''2024-01-02'',
                 created_with = Some ''Claude''\<rparr> =
     ''\<newline>\<newline>a.py\<newline>----\<newline>Hello\<newline>\<newline>Created with Claude (2024-01-02)\<newline>\<newline>'' \<and>
   created_with \<lparr>path = ''lib/b.sh'', description = ''Plain'', created_date = None,
                 created_with = None\<rparr> = None \<and>
   record_block \<lparr>path = ''lib/b.sh'', description = ''Plain'', created_date = None,
                 created_with = None\<rparr> =
     ''\<newline>\<newline>lib/b.sh\<newline>--------\<newline>Plain\<newline>\<newline>'' \<and>
   format_output (new_gatherer [''repo''])
     [\<lparr>path = ''a.py'', description = ''Hello'', created_date = Some ''2024-01-02'',
        created_with = Some ''Claude''\<rparr>,
      \<lparr>path = ''lib/b.sh'', description = ''Plain'', created_date = None, created_with = None\<rparr>] =
     preamble @ ''\<newline>'' @ section_header @
     ''\<newline>\<newline>a.py\<newline>----\<newline>Hello\<newline>\<newline>Created with Claude (2024-01-02)\<newline>\<newline>'' @
     ''\<newline>\<newline>lib/b.sh\<newline>--------\<newline>Plain\<newline>\<newline>''"
proof -
  let ?d1 = "\<lparr>path = ''a.py'', description = ''Hello'', created_date = Some ''2024-01-02'',
                 created_with = Some ''Claude''\<rparr>"
  let ?d2 = "\<lparr>path = ''lib/b.sh'', description = ''Plain'', created_date = None,
                 created_with = None\<rparr>"
  let ?g = "new_gatherer [''repo'']"
  have c1: "created_with ?d1 = Some ''Claude''" and c2: "created_date ?d1 = Some ''2024-01-02''"
    and c3: "created_with ?d2 = None" by simp_all
  from format_output_record[of ?g "[]" ?d1 "[?d2]"]
  have f: "format_output ?g ([] @ ?d1 # [?d2]) =
      format_output ?g [] @ record_block ?d1 @ concat (map record_block [?d2])"
    and r1: "\<forall>w d. created_with ?d1 = Some w \<and> created_date ?d1 = Some d \<and> w \<noteq> [] \<and> d \<noteq> [] \<longrightarrow>
      record_block ?d1 =
        ''\<newline>\<newline>'' @ path ?d1 @ ''\<newline>'' @ replicate (length (path ?d1)) (CHR ''-'') @
        ''\<newline>'' @ description ?d1 @ ''\<newline>\<newline>Created with '' @ w @ '' ('' @ d @ '')'' @
        ''\<newline>\<newline>''"
    by blast+
  from r1[rule_format, of "''Claude''" "''2024-01-02''"]
  have b1: "record_block ?d1 =
     ''\<newline>\<newline>a.py\<newline>----\<newline>Hello\<newline>\<newline>Created with Claude (2024-01-02)\<newline>\<newline>''"
    by simp
  from format_output_record[of ?g "[]" ?d2 "[]"]
  have "created_with ?d2 = None \<or> created_date ?d2 = None \<or>
    created_with ?d2 = Some [] \<or> created_date ?d2 = Some [] \<longrightarrow>
      record_block ?d2 =
        ''\<newline>\<newline>'' @ path ?d2 @ ''\<newline>'' @ replicate (length (path ?d2)) (CHR ''-'') @
        ''\<newline>'' @ description ?d2 @ ''\<newline>\<newline>''"
    by blast
  then have b2: "record_block ?d2 = ''\<newline>\<newline>lib/b.sh\<newline>--------\<newline>Plain\<newline>\<newline>''"
    by simp
  have e: "format_output ?g [] = preamble @ ''\<newline>'' @ section_header"
    by (simp add: format_output_def new_gatherer_def)
  have r: "format_output ?g [?d1, ?d2] =
     preamble @ ''\<newline>'' @ section_header @
     ''\<newline>\<newline>a.py\<newline>----\<newline>Hello\<newline>\<newline>Created with Claude (2024-01-02)\<newline>\<newline>'' @
     ''\<newline>\<newline>lib/b.sh\<newline>--------\<newline>Plain\<newline>\<newline>''"
    using f by (simp only: b1 b2 e append_Nil append_assoc list.map concat.simps append_Nil2)
  show ?thesis by (rule conjI c1 c2 c3 b1 b2 r)+
qed

text \<open>
  C5 as stated fails: the record below, which the extractor returns for a comment with
  \<open>Created with (x)\<close>, has both fields set, and its block has no trailing
  \<open>Created with\<close> line.
\<close>

theorem format_output_record_counterexample:
  "fst (extract_doc_comment (new_gatherer [''repo''])
         ([''repo'', ''a.sh''], File (Inr ''/** Tool. Created with (x) */''))) =
     Some \<lparr>path = ''a.sh'', description = ''Tool. Created with (x)'',
            created_date = Some ''x'', created_with = Some ''''\<rparr> \<and>
   format_output (new_gatherer [''repo''])
     [\<lparr>path = ''a.sh'', description = ''Tool. Created with (x)'',
        created_date = Some ''x'', created_with = Some ''''\<rparr>] =
     preamble @ ''\<newline>'' @ section_header @
     ''\<newline>\<newline>a.sh\<newline>----\<newline>Tool. Created with (x)\<newline>\<newline>''"
proof (rule conjI)
  show "fst (extract_doc_comment (new_gatherer [''repo''])
         ([''repo'', ''a.sh''], File (Inr ''/** Tool. Created with (x) */''))) =
     Some \<lparr>path = ''a.sh'', description = ''Tool. Created with (x)'',
            created_date = Some ''x'', created_with = Some ''''\<rparr>"
    by (simp add: eval_defs new_gatherer_def)
  show "format_output (new_gatherer [''repo''])
     [\<lparr>path = ''a.sh'', description = ''Tool. Created with (x)'',
        created_date = Some ''x'', created_with = Some ''''\<rparr>] =
     preamble @ ''\<newline>'' @ section_header @
     ''\<newline>\<newline>a.sh\<newline>----\<newline>Tool. Created with (x)\<newline>\<newline>''"
    by (simp add: format_output_def new_gatherer_def append_doc_def Let_def)
qed


section \<open>The scan\<close>

lemma map_filter_append:
  "List.map_filter f (xs @ ys) = List.map_filter f xs @ List.map_filter f ys"
  by (simp add: List.map_filter_def)

lemma gather_loop_ok:
  "list_all (\<lambda>e. stat_ok (snd e)) es \<Longrightarrow>
   gather_loop self st es =
     Inr (fst st @ List.map_filter (\<lambda>e. fst (extract_doc_comment self e))
            (filter (\<lambda>e. is_file (snd e) = Inr True \<and> path_suffix (fst e) \<in> set suffix_list) es),
          snd st @ concat (map (\<lambda>e. snd (extract_doc_comment self e))
            (filter (\<lambda>e. is_file (snd e) = Inr True \<and> path_suffix (fst e) \<in> set suffix_list) es)))"
proof (induction es arbitrary: st)
  case Nil
  show ?case by (simp add: List.map_filter_simps)
next
  case (Cons e es)
  from Cons.prems have ok: "stat_ok (snd e)" and rest: "list_all (\<lambda>e. stat_ok (snd e)) es" by simp_all
  from ok obtain b where b: "is_file (snd e) = Inr b" by (auto simp: stat_ok_def split: sum.splits)
  show ?case
  proof (cases "b \<and> path_suffix (fst e) \<in> set suffix_list")
    case False
    with b have "gather_step self st e = Inr st" by (auto simp: gather_step_def)
    with False b Cons.IH[OF rest, of st] show ?thesis by auto
  next
    case True
    obtain r out where x: "extract_doc_comment self e = (r, out)" by (cases "extract_doc_comment self e")
    show ?thesis
    proof (cases r)
      case None
      with True b x have "gather_step self st e = Inr (fst st, snd st @ out)"
        by (simp add: gather_step_def)
      with True b x None Cons.IH[OF rest, of "(fst st, snd st @ out)"] show ?thesis
        by (simp add: List.map_filter_simps)
    next
      case (Some doc)
      with True b x have "gather_step self st e = Inr (fst st @ [doc], snd st @ out)"
        by (simp add: gather_step_def)
      with True b x Some Cons.IH[OF rest, of "(fst st @ [doc], snd st @ out)"] show ?thesis
        by (simp add: List.map_filter_simps)
    qed
  qed
qed

lemma gather_step_Inr_stat: "gather_step self st e = Inr r \<Longrightarrow> stat_ok (snd e)"
  by (auto simp: gather_step_def stat_ok_def split: sum.splits)

lemma gather_loop_Inr_stat:
  "gather_loop self st es = Inr r \<Longrightarrow> list_all (\<lambda>e. stat_ok (snd e)) es"
proof (induction es arbitrary: st)
  case Nil
  show ?case by simp
next
  case (Cons e es)
  from Cons.prems obtain st' where s: "gather_step self st e = Inr st'"
    and l: "gather_loop self st' es = Inr r" by (auto split: sum.splits)
  from gather_step_Inr_stat[OF s] Cons.IH[OF l] show ?case by simp
qed

lemma gather_loop_abort:
  assumes "list_all (\<lambda>e. stat_ok (snd e)) es1" and "is_file (snd e) = Inl x"
  shows "gather_loop self st (es1 @ e # es2) =
     Inl (x, snd st @ concat (map (\<lambda>e. snd (extract_doc_comment self e))
            (filter (\<lambda>e. is_file (snd e) = Inr True \<and> path_suffix (fst e) \<in> set suffix_list) es1)))"
  using assms(1)
proof (induction es1 arbitrary: st)
  case Nil
  from assms(2) show ?case by (simp add: gather_step_def)
next
  case (Cons a es1)
  from Cons.prems have ok: "list_all (\<lambda>e. stat_ok (snd e)) [a]"
    and rest: "list_all (\<lambda>e. stat_ok (snd e)) es1" by simp_all
  from gather_loop_ok[OF ok, of self st] obtain st' where s: "gather_step self st a = Inr st'"
    and o: "snd st' = snd st @ concat (map (\<lambda>e. snd (extract_doc_comment self e))
            (filter (\<lambda>e. is_file (snd e) = Inr True \<and> path_suffix (fst e) \<in> set suffix_list) [a]))"
    by (auto split: sum.splits)
  from s have "gather_loop self st ((a # es1) @ e # es2) = gather_loop self st' (es1 @ e # es2)" by simp
  with Cons.IH[OF rest, of st'] o show ?case by simp
qed

lemma gather_loop_skip:
  assumes "\<And>st. gather_step self st e = Inr st"
  shows "gather_loop self st (es1 @ e # es2) = gather_loop self st (es1 @ es2)"
proof (induction es1 arbitrary: st)
  case Nil
  show ?case using assms by simp
next
  case (Cons a es1)
  show ?case
  proof (cases "gather_step self st a")
    case (Inl x)
    then show ?thesis by simp
  next
    case (Inr st')
    with Cons.IH[of st'] show ?thesis by simp
  qed
qed


lemma record_block_text:
  "record_block r =
     ''\<newline>\<newline>'' @ path r @ ''\<newline>'' @ replicate (length (path r)) (CHR ''-'') @
     ''\<newline>'' @ description r @
     (case (created_with r, created_date r) of
        (Some w, Some d) \<Rightarrow>
          if w \<noteq> [] \<and> d \<noteq> [] then ''\<newline>\<newline>Created with '' @ w @ '' ('' @ d @ '')'' else []
      | _ \<Rightarrow> []) @
     ''\<newline>\<newline>''"
  by (simp add: record_block_def append_doc_def Let_def split: option.split)

lemma format_output_text:
  "format_output self docs =
     project_context self @ ''\<newline>'' @ section_header @ concat (map record_block docs)"
  using format_output_blocks[of self docs] by (simp add: format_output_def)

lemmas suffix_defs = path_suffix_def path_name_def rfind_def suffix_list_def Let_def

text \<open>
  C7: the report is the preamble, the header and then the block of every record, in the
  order of the sequence, so the block of \<open>r1\<close> comes before the block of \<open>r2\<close>; a block is
  never empty: it is the path, the underline, the description and, when both creation
  fields are set and not empty, the creation line.  The records of a scan that returns
  are the extractor's results for the files the walk yields, in the order it yields them,
  so the report of a scan has the records of earlier files before those of later ones.
\<close>

theorem report_order_preserved:
  "format_output self [r1, r2] =
     project_context self @ ''\<newline>'' @ section_header @ record_block r1 @ record_block r2 \<and>
   format_output self docs =
     project_context self @ ''\<newline>'' @ section_header @ concat (map record_block docs) \<and>
   record_block r =
     ''\<newline>\<newline>'' @ path r @ ''\<newline>'' @ replicate (length (path r)) (CHR ''-'') @
     ''\<newline>'' @ description r @
     (case (created_with r, created_date r) of
        (Some w, Some d) \<Rightarrow>
          if w \<noteq> [] \<and> d \<noteq> [] then ''\<newline>\<newline>Created with '' @ w @ '' ('' @ d @ '')'' else []
      | _ \<Rightarrow> []) @
     ''\<newline>\<newline>'' \<and>
   record_block r \<noteq> [] \<and>
   (gather_loop self ([], []) es = Inr (ds, out) \<longrightarrow>
      ds = List.map_filter (\<lambda>e. fst (extract_doc_comment self e))
             (filter (\<lambda>e. is_file (snd e) = Inr True \<and> path_suffix (fst e) \<in> set suffix_list) es)) \<and>
   (gather_docs self tree = Inr (ds, out) \<longrightarrow>
      ds = List.map_filter (\<lambda>e. fst (extract_doc_comment self e))
             (filter (\<lambda>e. is_file (snd e) = Inr True \<and> path_suffix (fst e) \<in> set suffix_list)
                (rglob (root_dir self) tree))) \<and>
   (gather_loop self ([], []) (es1 @ es2) = Inr (ds, out) \<longrightarrow>
      (\<exists>ds1 o1 ds2 o2.
         gather_loop self ([], []) es1 = Inr (ds1, o1) \<and>
         gather_loop self ([], []) es2 = Inr (ds2, o2) \<and>
         ds = ds1 @ ds2 \<and>
         format_output self ds = format_output self ds1 @ concat (map record_block ds2)))"
proof (intro conjI impI)
  show "format_output self [r1, r2] =
     project_context self @ ''\<newline>'' @ section_header @ record_block r1 @ record_block r2"
    using format_output_text[of self "[r1, r2]"] by simp
  show "format_output self docs =
     project_context self @ ''\<newline>'' @ section_header @ concat (map record_block docs)"
    by (rule format_output_text)
  show "record_block r =
     ''\<newline>\<newline>'' @ path r @ ''\<newline>'' @ replicate (length (path r)) (CHR ''-'') @
     ''\<newline>'' @ description r @
     (case (created_with r, created_date r) of
        (Some w, Some d) \<Rightarrow>
          if w \<noteq> [] \<and> d \<noteq> [] then ''\<newline>\<newline>Created with '' @ w @ '' ('' @ d @ '')'' else []
      | _ \<Rightarrow> []) @
     ''\<newline>\<newline>''"
    by (rule record_block_text)
  show "record_block r \<noteq> []" by (simp add: record_block_text)
next
  assume a: "gather_loop self ([], []) es = Inr (ds, out)"
  from gather_loop_ok[OF gather_loop_Inr_stat[OF a], of self "([], [])"] a
  show "ds = List.map_filter (\<lambda>e. fst (extract_doc_comment self e))
             (filter (\<lambda>e. is_file (snd e) = Inr True \<and> path_suffix (fst e) \<in> set suffix_list) es)"
    by simp
next
  assume "gather_docs self tree = Inr (ds, out)"
  then have a: "gather_loop self ([], []) (rglob (root_dir self) tree) = Inr (ds, out)"
    by (simp add: gather_docs_def)
  from gather_loop_ok[OF gather_loop_Inr_stat[OF a], of self "([], [])"] a
  show "ds = List.map_filter (\<lambda>e. fst (extract_doc_comment self e))
             (filter (\<lambda>e. is_file (snd e) = Inr True \<and> path_suffix (fst e) \<in> set suffix_list)
                (rglob (root_dir self) tree))"
    by simp
next
  let ?c = "\<lambda>e. is_file (snd e) = Inr True \<and> path_suffix (fst e) \<in> set suffix_list"
  let ?D = "\<lambda>es. List.map_filter (\<lambda>e. fst (extract_doc_comment self e)) (filter ?c es)"
  let ?O = "\<lambda>es. concat (map (\<lambda>e. snd (extract_doc_comment self e)) (filter ?c es))"
  assume a: "gather_loop self ([], []) (es1 @ es2) = Inr (ds, out)"
  from gather_loop_Inr_stat[OF a] have s1: "list_all (\<lambda>e. stat_ok (snd e)) es1"
    and s2: "list_all (\<lambda>e. stat_ok (snd e)) es2" by simp_all
  from gather_loop_ok[OF gather_loop_Inr_stat[OF a], of self "([], [])"] a
  have ds: "ds = ?D es1 @ ?D es2" by (simp add: map_filter_append)
  have g1: "gather_loop self ([], []) es1 = Inr (?D es1, ?O es1)"
    using gather_loop_ok[OF s1, of self "([], [])"] by simp
  have g2: "gather_loop self ([], []) es2 = Inr (?D es2, ?O es2)"
    using gather_loop_ok[OF s2, of self "([], [])"] by simp
  have f: "format_output self ds = format_output self (?D es1) @ concat (map record_block (?D es2))"
    unfolding ds by (rule format_output_append)
  show "\<exists>ds1 o1 ds2 o2.
         gather_loop self ([], []) es1 = Inr (ds1, o1) \<and>
         gather_loop self ([], []) es2 = Inr (ds2, o2) \<and>
         ds = ds1 @ ds2 \<and>
         format_output self ds = format_output self ds1 @ concat (map record_block ds2)"
  proof (intro exI conjI)
    show "gather_loop self ([], []) es1 = Inr (?D es1, ?O es1)" by (rule g1)
    show "gather_loop self ([], []) es2 = Inr (?D es2, ?O es2)" by (rule g2)
    show "ds = ?D es1 @ ?D es2" by (rule ds)
    show "format_output self ds = format_output self (?D es1) @ concat (map record_block (?D es2))"
      by (rule f)
  qed
qed

text \<open>
  Witness of C7.  A scan of two files and its report.
\<close>

theorem report_order_preserved_witness:
  "gather_loop (new_gatherer [''repo'']) ([], [])
     ([([''repo'', ''a.py''], File (Inr ''/** first */''))] @
      [([''repo'', ''z.sh''], File (Inr ''<# last #>''))]) =
     Inr ([\<lparr>path = ''a.py'', description = ''first'', created_date = None, created_with = None\<rparr>,
           \<lparr>path = ''z.sh'', description = ''last'', created_date = None, created_with = None\<rparr>], []) \<and>
   format_output (new_gatherer [''repo''])
     [\<lparr>path = ''a.py'', description = ''first'', created_date = None, created_with = None\<rparr>,
      \<lparr>path = ''z.sh'', description = ''last'', created_date = None, created_with = None\<rparr>] =
     preamble @ ''\<newline>'' @ section_header @
     ''\<newline>\<newline>a.py\<newline>----\<newline>first\<newline>\<newline>'' @
     ''\<newline>\<newline>z.sh\<newline>----\<newline>last\<newline>\<newline>''"
proof -
  let ?g = "new_gatherer [''repo'']"
  let ?d1 = "\<lparr>path = ''a.py'', description = ''first'', created_date = None, created_with = None\<rparr>"
  let ?d2 = "\<lparr>path = ''z.sh'', description = ''last'', created_date = None, created_with = None\<rparr>"
  have g: "gather_loop ?g ([], [])
     ([([''repo'', ''a.py''], File (Inr ''/** first */''))] @
      [([''repo'', ''z.sh''], File (Inr ''<# last #>''))]) = Inr ([?d1, ?d2], [])"
    by (simp add: gather_step_def suffix_defs eval_defs new_gatherer_def)
  from report_order_preserved[of ?g ?d1 ?d2 "[]" ?d1]
  have f: "format_output ?g [?d1, ?d2] =
      project_context ?g @ ''\<newline>'' @ section_header @ record_block ?d1 @ record_block ?d2"
    and b1: "record_block ?d1 =
     ''\<newline>\<newline>'' @ path ?d1 @ ''\<newline>'' @ replicate (length (path ?d1)) (CHR ''-'') @
     ''\<newline>'' @ description ?d1 @
     (case (created_with ?d1, created_date ?d1) of
        (Some w, Some d) \<Rightarrow>
          if w \<noteq> [] \<and> d \<noteq> [] then ''\<newline>\<newline>Created with '' @ w @ '' ('' @ d @ '')'' else []
      | _ \<Rightarrow> []) @
     ''\<newline>\<newline>''"
    by blast+
  from report_order_preserved[of ?g ?d1 ?d2 "[]" ?d2]
  have b2: "record_block ?d2 =
     ''\<newline>\<newline>'' @ path ?d2 @ ''\<newline>'' @ replicate (length (path ?d2)) (CHR ''-'') @
     ''\<newline>'' @ description ?d2 @
     (case (created_with ?d2, created_date ?d2) of
        (Some w, Some d) \<Rightarrow>
          if w \<noteq> [] \<and> d \<noteq> [] then ''\<newline>\<newline>Created with '' @ w @ '' ('' @ d @ '')'' else []
      | _ \<Rightarrow> []) @
     ''\<newline>\<newline>''"
    by blast
  have r: "format_output ?g [?d1, ?d2] =
     preamble @ ''\<newline>'' @ section_header @
     ''\<newline>\<newline>a.py\<newline>----\<newline>first\<newline>\<newline>'' @
     ''\<newline>\<newline>z.sh\<newline>----\<newline>last\<newline>\<newline>''"
    unfolding f b1 b2 by (simp add: new_gatherer_def)
  show ?thesis by (rule conjI g r)+
qed

text \<open>
  What the \<open>try\<close> of \<open>extract_doc_comment\<close> does catch: a file whose \<open>read_text()\<close> raises
  yields no record and one printed line, and a scan in which \<open>is_file()\<close> returns for
  every entry goes on with the records and lines of the other files.
\<close>

lemma read_failure_is_caught:
  assumes "path_suffix fp \<in> set suffix_list"
    and "list_all (\<lambda>e. stat_ok (snd e)) es1" and "list_all (\<lambda>e. stat_ok (snd e)) es2"
  shows "extract_doc_comment self (fp, File (Inl err)) =
           (None, [''Error processing '' @ path_str fp @ '': '' @ exc_str err]) \<and>
         (\<exists>ds1 o1 ds2 o2.
            gather_loop self ([], []) es1 = Inr (ds1, o1) \<and>
            gather_loop self ([], []) es2 = Inr (ds2, o2) \<and>
            gather_loop self ([], []) (es1 @ (fp, File (Inl err)) # es2) =
              Inr (ds1 @ ds2,
                   o1 @ [''Error processing '' @ path_str fp @ '': '' @ exc_str err] @ o2))"
proof
  show e: "extract_doc_comment self (fp, File (Inl err)) =
           (None, [''Error processing '' @ path_str fp @ '': '' @ exc_str err])"
    by (simp add: extract_doc_comment_def)
  let ?c = "\<lambda>e. is_file (snd e) = Inr True \<and> path_suffix (fst e) \<in> set suffix_list"
  let ?D = "\<lambda>es. List.map_filter (\<lambda>e. fst (extract_doc_comment self e)) (filter ?c es)"
  let ?O = "\<lambda>es. concat (map (\<lambda>e. snd (extract_doc_comment self e)) (filter ?c es))"
  have g1: "gather_loop self ([], []) es1 = Inr (?D es1, ?O es1)"
    using gather_loop_ok[OF assms(2), of self "([], [])"] by simp
  have g2: "gather_loop self ([], []) es2 = Inr (?D es2, ?O es2)"
    using gather_loop_ok[OF assms(3), of self "([], [])"] by simp
  have "list_all (\<lambda>e. stat_ok (snd e)) (es1 @ (fp, File (Inl err)) # es2)"
    using assms(2,3) by (simp add: stat_ok_def)
  from gather_loop_ok[OF this, of self "([], [])"]
  have g: "gather_loop self ([], []) (es1 @ (fp, File (Inl err)) # es2) =
      Inr (?D es1 @ ?D es2,
           ?O es1 @ [''Error processing '' @ path_str fp @ '': '' @ exc_str err] @ ?O es2)"
    using assms(1) e by (simp add: map_filter_append List.map_filter_simps)
  show "\<exists>ds1 o1 ds2 o2.
            gather_loop self ([], []) es1 = Inr (ds1, o1) \<and>
            gather_loop self ([], []) es2 = Inr (ds2, o2) \<and>
            gather_loop self ([], []) (es1 @ (fp, File (Inl err)) # es2) =
              Inr (ds1 @ ds2,
                   o1 @ [''Error processing '' @ path_str fp @ '': '' @ exc_str err] @ o2)"
  proof (intro exI conjI)
    show "gather_loop self ([], []) es1 = Inr (?D es1, ?O es1)" by (rule g1)
    show "gather_loop self ([], []) es2 = Inr (?D es2, ?O es2)" by (rule g2)
    show "gather_loop self ([], []) (es1 @ (fp, File (Inl err)) # es2) =
      Inr (?D es1 @ ?D es2,
           ?O es1 @ [''Error processing '' @ path_str fp @ '': '' @ exc_str err] @ ?O es2)"
      by (rule g)
  qed
qed

text \<open>
  C9 fails on the code: \<open>is_file()\<close> is called at line 94, outside the \<open>try\<close> of
  \<open>extract_doc_comment\<close>.  For a file in a directory without search permission it raises
  \<open>PermissionError\<close>, and \<open>gather_docs\<close> ends with that exception: the record of \<open>ok.py\<close>,
  which the scan of \<open>ok.py\<close> alone returns, is lost, and no line is printed.
\<close>

theorem unreadable_file_aborts_scan:
  "gather_docs (new_gatherer [''repo''])
     [(''ok.py'', File (Inr ''/** fine */''))] =
     Inr ([\<lparr>path = ''ok.py'', description = ''fine'', created_date = None, created_with = None\<rparr>], []) \<and>
   gather_docs (new_gatherer [''repo''])
     [(''locked'', Dir [(''a.py'', NoStat (PermissionError ''[Errno 13] Permission denied''))]),
      (''ok.py'', File (Inr ''/** fine */''))] =
     Inl (PermissionError ''[Errno 13] Permission denied'', [])"
  by (simp add: gather_docs_def rglob.simps gather_step_def suffix_defs eval_defs new_gatherer_def)

text \<open>
  C10: a path whose suffix is not one of \<open>.py\<close>, \<open>.sh\<close>, \<open>.ps1\<close>, character for
  character, leaves the loop's state as it was, whatever the file or directory holds, and
  drops out of the scan; the suffixes of \<open>X.PY\<close> and \<open>x.Sh\<close> are \<open>.PY\<close> and \<open>.Sh\<close>, not
  in the list.
\<close>

theorem suffix_match_is_exact:
  assumes "path_suffix fp \<notin> set suffix_list"
  shows "gather_step self st (fp, File r) = Inr st \<and>
         gather_step self st (fp, Dir sub) = Inr st \<and>
         (stat_ok node \<longrightarrow>
            gather_step self st (fp, node) = Inr st \<and>
            gather_loop self ([], []) (es1 @ (fp, node) # es2) = gather_loop self ([], []) (es1 @ es2)) \<and>
         (path_suffix fp' \<in> set suffix_list \<longleftrightarrow>
            path_suffix fp' = ''.py'' \<or> path_suffix fp' = ''.sh'' \<or> path_suffix fp' = ''.ps1'') \<and>
         path_suffix (dir @ [''X.PY'']) = ''.PY'' \<and> ''.PY'' \<notin> set suffix_list \<and>
         path_suffix (dir @ [''x.Sh'']) = ''.Sh'' \<and> ''.Sh'' \<notin> set suffix_list"
proof (intro conjI impI)
  have s: "\<And>n st. stat_ok n \<Longrightarrow> gather_step self st (fp, n) = Inr st"
    using assms by (auto simp: gather_step_def stat_ok_def split: sum.splits)
  show "gather_step self st (fp, File r) = Inr st" by (rule s) (simp add: stat_ok_def)
  show "gather_step self st (fp, Dir sub) = Inr st" by (rule s) (simp add: stat_ok_def)
  show "gather_step self st (fp, node) = Inr st" if "stat_ok node" using that by (rule s)
  show "gather_loop self ([], []) (es1 @ (fp, node) # es2) = gather_loop self ([], []) (es1 @ es2)"
    if "stat_ok node" by (rule gather_loop_skip) (rule s[OF that])
  show "path_suffix fp' \<in> set suffix_list \<longleftrightarrow>
            path_suffix fp' = ''.py'' \<or> path_suffix fp' = ''.sh'' \<or> path_suffix fp' = ''.ps1''"
    by (simp add: suffix_list_def)
  show "path_suffix (dir @ [''X.PY'']) = ''.PY''" by (simp add: suffix_defs)
  show "''.PY'' \<notin> set suffix_list" by (simp add: suffix_list_def)
  show "path_suffix (dir @ [''x.Sh'']) = ''.Sh''" by (simp add: suffix_defs)
  show "''.Sh'' \<notin> set suffix_list" by (simp add: suffix_list_def)
qed

text \<open>
  Witness of C10.  A scan of \<open>X.PY\<close> and \<open>x.py\<close> with the same content: only \<open>x.py\<close> is
  reported.
\<close>

theorem suffix_match_is_exact_witness:
  "path_suffix [''repo'', ''X.PY''] \<notin> set suffix_list \<and>
   stat_ok (File (Inr ''/** doc */'')) \<and>
   gather_step (new_gatherer [''repo'']) ([], []) ([''repo'', ''X.PY''], File (Inr ''/** doc */'')) = Inr ([], []) \<and>
   gather_loop (new_gatherer [''repo'']) ([], [])
     ([] @ ([''repo'', ''X.PY''], File (Inr ''/** doc */'')) # [([''repo'', ''x.py''], File (Inr ''/** doc */''))]) =
     Inr ([\<lparr>path = ''x.py'', description = ''doc'', created_date = None, created_with = None\<rparr>], [])"
proof -
  let ?g = "new_gatherer [''repo'']"
  have h: "path_suffix [''repo'', ''X.PY''] \<notin> set suffix_list" by (simp add: suffix_defs)
  have k: "stat_ok (File (Inr ''/** doc */''))" by (simp add: stat_ok_def)
  have x: "gather_loop ?g ([], []) ([] @ [([''repo'', ''x.py''], File (Inr ''/** doc */''))]) =
      Inr ([\<lparr>path = ''x.py'', description = ''doc'', created_date = None, created_with = None\<rparr>], [])"
    by (simp add: gather_step_def suffix_defs eval_defs new_gatherer_def)
  from suffix_match_is_exact[OF h, of ?g "([], [])" "Inr ''/** doc */''" "[]" "File (Inr ''/** doc */'')" "[]"
      "[([''repo'', ''x.py''], File (Inr ''/** doc */''))]"] k
  have s: "gather_step ?g ([], []) ([''repo'', ''X.PY''], File (Inr ''/** doc */'')) = Inr ([], [])"
    and l: "gather_loop ?g ([], [])
     ([] @ ([''repo'', ''X.PY''], File (Inr ''/** doc */'')) # [([''repo'', ''x.py''], File (Inr ''/** doc */''))]) =
     gather_loop ?g ([], []) ([] @ [([''repo'', ''x.py''], File (Inr ''/** doc */''))])"
    by blast+
  from l x have l': "gather_loop ?g ([], [])
     ([] @ ([''repo'', ''X.PY''], File (Inr ''/** doc */'')) # [([''repo'', ''x.py''], File (Inr ''/** doc */''))]) =
     Inr ([\<lparr>path = ''x.py'', description = ''doc'', created_date = None, created_with = None\<rparr>], [])"
    by (rule trans)
  show ?thesis by (rule conjI h k s l')+
qed


subsection \<open>The walk over a tree\<close>










end
